theory Spec2Isabelle
  imports Main "HOL-Library.Word"
begin

unbundle bit_operations_syntax

text \<open>
  The segment of the commit log: the store (length-prefixed records in a file behind a
  buffered writer), the index (12-byte entries in a memory-mapped file) and the segment
  that ties them together, as functions on explicit states. Unsigned 64-bit and 32-bit
  integers are words; an \<open>int64\<close> is a 64-bit word read with \<open>sint\<close>. Every error return is
  a value; a run-time panic is the value \<open>Panic\<close>.
\<close>

section \<open>Bytes, errors and the big-endian encoder\<close>

type_synonym byte = "8 word"

text \<open>
  The errors the package returns. \<open>EOF\<close> is Go's \<open>io.EOF\<close>, which the index returns both
  for a missing entry and for a full index. \<open>Panic\<close> is not a returned error: it stands for
  a run-time panic (a slice bound out of range), which ends the program.
\<close>

datatype error =
    EOF
  | Panic
  | ErrShortWrite
  | ErrNoSpace
  | ErrNotExist
  | ErrInvalid
  | ErrOpen
  | ErrMarshal
  | ErrUnmarshal

text \<open>\<open>enc = binary.BigEndian\<close>: the most significant byte comes first.\<close>

definition PutUint32 :: "32 word \<Rightarrow> byte list" where
  "PutUint32 v = [ucast (drop_bit 24 v), ucast (drop_bit 16 v), ucast (drop_bit 8 v), ucast v]"

definition PutUint64 :: "64 word \<Rightarrow> byte list" where
  "PutUint64 v =
     [ucast (drop_bit 56 v), ucast (drop_bit 48 v), ucast (drop_bit 40 v), ucast (drop_bit 32 v),
      ucast (drop_bit 24 v), ucast (drop_bit 16 v), ucast (drop_bit 8 v), ucast v]"

text \<open>Decoding reads the first 4 (8) bytes of the slice; a shorter slice panics (\<open>None\<close>).\<close>

fun Uint32 :: "byte list \<Rightarrow> 32 word option" where
  "Uint32 (b0 # b1 # b2 # b3 # _) =
     Some (ucast b3 OR push_bit 8 (ucast b2) OR push_bit 16 (ucast b1) OR push_bit 24 (ucast b0))"
| "Uint32 _ = None"

fun Uint64 :: "byte list \<Rightarrow> 64 word option" where
  "Uint64 (b0 # b1 # b2 # b3 # b4 # b5 # b6 # b7 # _) =
     Some (ucast b7 OR push_bit 8 (ucast b6) OR push_bit 16 (ucast b5) OR push_bit 24 (ucast b4)
        OR push_bit 32 (ucast b3) OR push_bit 40 (ucast b2) OR push_bit 48 (ucast b1)
        OR push_bit 56 (ucast b0))"
| "Uint64 _ = None"

text \<open>
  Go's slice expression \<open>b[lo:hi]\<close>: it panics (\<open>None\<close>) unless \<open>lo \<le> hi \<le> len(b)\<close>.
\<close>

definition slice :: "byte list \<Rightarrow> nat \<Rightarrow> nat \<Rightarrow> byte list option" where
  "slice b lo hi = (if lo \<le> hi \<and> hi \<le> length b then Some (take (hi - lo) (drop lo b)) else None)"

text \<open>
  \<open>enc.PutUintN(b[lo:hi], v)\<close> with \<open>bs\<close> the encoding of \<open>v\<close>: the bytes are stored into
  the backing array of \<open>b\<close> from \<open>lo\<close> on. It panics when the slice expression does, or when
  the slice is shorter than the encoding.
\<close>

definition put_slice :: "byte list \<Rightarrow> nat \<Rightarrow> nat \<Rightarrow> byte list \<Rightarrow> byte list option" where
  "put_slice b lo hi bs =
     (if lo \<le> hi \<and> hi \<le> length b \<and> length bs \<le> hi - lo
      then Some (take lo b @ bs @ drop (lo + length bs) b) else None)"

section \<open>Files and the buffered writer\<close>

text \<open>
  The operating system and the Go libraries are not part of the package; they are modelled
  by what the package relies on. A file is its content; \<open>room\<close> is the number of bytes
  the device still accepts (a write beyond it is short and fails); \<open>unlinked\<close> says that
  the path no longer names the file, so that calls by name (\<open>os.Stat\<close>, \<open>os.Truncate\<close>)
  fail.
\<close>

record osfile =
  content :: "byte list"
  room :: nat
  unlinked :: bool

text \<open>\<open>os.Stat(f.Name())\<close> followed by \<open>fi.Size()\<close>.\<close>

definition os_Stat :: "osfile \<Rightarrow> error + nat" where
  "os_Stat f = (if unlinked f then Inl ErrNotExist else Inr (length (content f)))"

text \<open>
  \<open>os.Truncate(f.Name(), int64(n))\<close>: a negative length is refused; a longer file is cut,
  a shorter one is extended with zero bytes.
\<close>

definition os_Truncate :: "osfile \<Rightarrow> 64 word \<Rightarrow> error + osfile" where
  "os_Truncate f n =
     (if unlinked f then Inl ErrNotExist
      else if sint n < 0 then Inl ErrInvalid
      else Inr (f\<lparr>content := take (unat n) (content f @ replicate (unat n - length (content f)) 0)\<rparr>))"

text \<open>
  \<open>(*os.File).Write\<close> on a file opened with \<open>O_APPEND\<close>: the bytes go to the end of
  the file; it returns the number of bytes written and an error when that is short.
\<close>

definition File_Write :: "byte list \<Rightarrow> osfile \<Rightarrow> (nat \<times> error option) \<times> osfile" where
  "File_Write b f =
     (if length b \<le> room f
      then ((length b, None), f\<lparr>content := content f @ b, room := room f - length b\<rparr>)
      else ((room f, Some ErrNoSpace), f\<lparr>content := content f @ take (room f) b, room := 0\<rparr>))"

text \<open>
  \<open>(*os.File).ReadAt(b, off)\<close> with \<open>n = len(b)\<close>: a negative offset is an error; it
  reads until \<open>b\<close> is full and returns \<open>io.EOF\<close> when the file ends before that.
\<close>

definition File_ReadAt :: "osfile \<Rightarrow> nat \<Rightarrow> 64 word \<Rightarrow> error + byte list" where
  "File_ReadAt f n off =
     (if sint off < 0 then Inl ErrInvalid
      else if n = 0 then Inr []
      else if unat off + n \<le> length (content f) then Inr (take n (drop (unat off) (content f)))
      else Inl EOF)"

text \<open>\<open>gommap.Map\<close> maps the whole file; mapping an empty file is refused by the system.\<close>

definition gommap_Map :: "osfile \<Rightarrow> error + byte list" where
  "gommap_Map f = (if content f = [] then Inl ErrInvalid else Inr (content f))"

text \<open>
  \<open>bufio.Writer\<close> with the default buffer of 4096 bytes: the buffered bytes and the sticky
  error. The file it writes to is the store's \<open>File\<close>, passed along.
\<close>

record Writer =
  wbuf :: "byte list"
  werr :: "error option"

definition defaultBufSize :: nat where "defaultBufSize = 4096"

definition Available :: "Writer \<Rightarrow> nat" where
  "Available w = defaultBufSize - length (wbuf w)"

definition Buffered :: "Writer \<Rightarrow> nat" where
  "Buffered w = length (wbuf w)"

definition Writer_Flush :: "Writer \<Rightarrow> osfile \<Rightarrow> error option \<times> Writer \<times> osfile" where
  "Writer_Flush w f =
     (if werr w \<noteq> None then (werr w, w, f)
      else if Buffered w = 0 then (None, w, f)
      else
        (case File_Write (wbuf w) f of
           ((n, e), f') \<Rightarrow>
             (case (if n < Buffered w \<and> e = None then Some ErrShortWrite else e) of
                Some err \<Rightarrow> (Some err, w\<lparr>wbuf := drop n (wbuf w), werr := Some err\<rparr>, f')
              | None \<Rightarrow> (None, w\<lparr>wbuf := []\<rparr>, f'))))"

text \<open>
  The loop of \<open>(*bufio.Writer).Write\<close>: while \<open>p\<close> does not fit the buffer and no error
  has occurred, either write \<open>p\<close> to the file directly (empty buffer) or fill the buffer
  and flush it. It returns what is left of \<open>p\<close> and the count \<open>nn\<close>.
\<close>

function Writer_Write_loop ::
  "byte list \<Rightarrow> nat \<Rightarrow> Writer \<Rightarrow> osfile \<Rightarrow> (byte list \<times> nat) \<times> Writer \<times> osfile" where
  "Writer_Write_loop p nn w f =
     (if Available w < length p \<and> werr w = None then
        (if Buffered w = 0 then
           (case File_Write p f of
              ((n, e), f') \<Rightarrow> Writer_Write_loop (drop n p) (nn + n) (w\<lparr>werr := e\<rparr>) f')
         else
           (let n = min (Available w) (length p) in
            case Writer_Flush (w\<lparr>wbuf := wbuf w @ take n p\<rparr>) f of
              (_, w', f') \<Rightarrow> Writer_Write_loop (drop n p) (nn + n) w' f'))
      else ((p, nn), w, f))"
  by pat_completeness auto
termination
proof (relation "measures [\<lambda>(p, nn, w, f). if werr w = None then 1 else 0,
                           \<lambda>(p, nn, w, f). length p,
                           \<lambda>(p, nn, w, f). length (wbuf w)]", goal_cases)
  case 1
  show ?case by simp
next
  case (2 p nn w f x1 f' n e)
  then show ?case
    by (auto simp: File_Write_def split: if_splits)
next
  case (3 p nn w f n x1 x2 w' f')
  then show ?case
    by (auto simp: Writer_Flush_def File_Write_def Buffered_def Available_def min_def
        split: if_splits prod.splits option.splits)
qed

declare Writer_Write_loop.simps [simp del]

definition Writer_Write :: "byte list \<Rightarrow> Writer \<Rightarrow> osfile \<Rightarrow> (nat \<times> error option) \<times> Writer \<times> osfile" where
  "Writer_Write p w f =
     (case Writer_Write_loop p 0 w f of
        ((p', nn), w', f') \<Rightarrow>
          (case werr w' of
             Some e \<Rightarrow> ((nn, Some e), w', f')
           | None \<Rightarrow>
              (let n = min (Available w') (length p')
               in ((nn + n, None), w'\<lparr>wbuf := wbuf w' @ take n p'\<rparr>, f'))))"

text \<open>\<open>binary.Write(w, enc, v)\<close> for a \<open>uint64\<close>: the eight bytes go through \<open>w.Write\<close>.\<close>

definition binary_Write :: "Writer \<Rightarrow> osfile \<Rightarrow> 64 word \<Rightarrow> error option \<times> Writer \<times> osfile" where
  "binary_Write w f v = (case Writer_Write (PutUint64 v) w f of ((n, e), w', f') \<Rightarrow> (e, w', f'))"

section \<open>The store\<close>

definition lenWidth :: "64 word" where "lenWidth = 8"

text \<open>
  \<open>type store struct { *os.File; mu sync.Mutex; buf *bufio.Writer; size uint64 }\<close>. The
  calls are modelled one at a time, which is what the mutex enforces.
\<close>

record store =
  File :: osfile
  buf :: Writer
  size_st :: "64 word"

definition newStore :: "osfile \<Rightarrow> error + store" where
  "newStore f =
     (case os_Stat f of
        Inl e \<Rightarrow> Inl e
      | Inr sz \<Rightarrow> Inr \<lparr>File = f, buf = \<lparr>wbuf = [], werr = None\<rparr>, size_st = of_nat sz\<rparr>)"

text \<open>\<open>func (s *store) Append(p []byte) (n, pos uint64, err error)\<close>\<close>

definition store_Append :: "byte list \<Rightarrow> store \<Rightarrow> (error + (64 word \<times> 64 word)) \<times> store" where
  "store_Append p s =
     (let pos = size_st s in
      case binary_Write (buf s) (File s) (of_nat (length p)) of
        (Some e, w1, f1) \<Rightarrow> (Inl e, s\<lparr>File := f1, buf := w1\<rparr>)
      | (None, w1, f1) \<Rightarrow>
         (case Writer_Write p w1 f1 of
            ((w, Some e), w2, f2) \<Rightarrow> (Inl e, s\<lparr>File := f2, buf := w2\<rparr>)
          | ((w, None), w2, f2) \<Rightarrow>
              (Inr (of_nat (w + unat lenWidth), pos),
               s\<lparr>File := f2, buf := w2, size_st := size_st s + of_nat (w + unat lenWidth)\<rparr>)))"

text \<open>
  \<open>func (s *store) Read(pos uint64) ([]byte, error)\<close>. \<open>make([]byte, n)\<close> panics when
  \<open>n\<close> does not fit an \<open>int\<close>.
\<close>

definition store_Read :: "64 word \<Rightarrow> store \<Rightarrow> (error + byte list) \<times> store" where
  "store_Read pos s =
     (case Writer_Flush (buf s) (File s) of
        (Some e, w1, f1) \<Rightarrow> (Inl e, s\<lparr>File := f1, buf := w1\<rparr>)
      | (None, w1, f1) \<Rightarrow>
         (let s1 = s\<lparr>File := f1, buf := w1\<rparr> in
          case File_ReadAt f1 (unat lenWidth) pos of
            Inl e \<Rightarrow> (Inl e, s1)
          | Inr sz \<Rightarrow>
             (case Uint64 sz of
                None \<Rightarrow> (Inl Panic, s1)
              | Some n \<Rightarrow>
                 if sint n < 0 then (Inl Panic, s1)
                 else (case File_ReadAt f1 (unat n) (pos + lenWidth) of
                         Inl e \<Rightarrow> (Inl e, s1)
                       | Inr b \<Rightarrow> (Inr b, s1)))))"

section \<open>The index\<close>

definition offWidth :: "64 word" where "offWidth = 4"
definition posWidth :: "64 word" where "posWidth = 8"
definition entWidth :: "64 word" where "entWidth = offWidth + posWidth"

text \<open>
  \<open>type index struct { file *os.File; mmap gommap.MMap; size uint64 }\<close>. The mapping is
  shared: \<open>mmap\<close> is the content of the index file while the index is open.
\<close>

record index =
  file_ix :: osfile
  mmap :: "byte list"
  size_ix :: "64 word"

record Config =
  MaxStoreBytes :: "64 word"
  MaxIndexBytes :: "64 word"
  InitialOffset :: "64 word"

text \<open>\<open>func newIndex(f *os.File, c Config) (*index, error)\<close>\<close>

definition newIndex :: "osfile \<Rightarrow> Config \<Rightarrow> error + index" where
  "newIndex f c =
     (case os_Stat f of
        Inl e \<Rightarrow> Inl e
      | Inr sz \<Rightarrow>
         (case os_Truncate f (MaxIndexBytes c) of
            Inl e \<Rightarrow> Inl e
          | Inr f' \<Rightarrow>
             (case gommap_Map f' of
                Inl e \<Rightarrow> Inl e
              | Inr m \<Rightarrow> Inr \<lparr>file_ix = f', mmap = m, size_ix = of_nat sz\<rparr>)))"

text \<open>\<open>func (i *index) Read(in int64) (out uint32, pos uint64, err error)\<close>\<close>

definition index_Read :: "index \<Rightarrow> 64 word \<Rightarrow> error + (32 word \<times> 64 word)" where
  "index_Read i inp =
     (if size_ix i = 0 then Inl EOF
      else
        let out = (if inp = - 1 then ucast (size_ix i div entWidth - 1) else ucast inp) :: 32 word;
            pos = (ucast out :: 64 word) * entWidth
        in if size_ix i < pos + entWidth then Inl EOF
           else
             (case Option.bind (slice (mmap i) (unat pos) (unat (pos + offWidth))) Uint32 of
                None \<Rightarrow> Inl Panic
              | Some out' \<Rightarrow>
                 (case Option.bind (slice (mmap i) (unat (pos + offWidth)) (unat (pos + entWidth))) Uint64 of
                    None \<Rightarrow> Inl Panic
                  | Some pos' \<Rightarrow> Inr (out', pos'))))"

text \<open>\<open>func (i *index) Write(off uint32, pos uint64) error\<close>: the error and the index after.\<close>

definition index_Write :: "32 word \<Rightarrow> 64 word \<Rightarrow> index \<Rightarrow> error option \<times> index" where
  "index_Write off pos i =
     (if (of_nat (length (mmap i)) :: 64 word) < size_ix i + entWidth then (Some EOF, i)
      else
        (case put_slice (mmap i) (unat (size_ix i)) (unat (size_ix i + offWidth)) (PutUint32 off) of
           None \<Rightarrow> (Some Panic, i)
         | Some m1 \<Rightarrow>
            (case put_slice m1 (unat (size_ix i + offWidth)) (unat (size_ix i + entWidth)) (PutUint64 pos) of
               None \<Rightarrow> (Some Panic, i\<lparr>mmap := m1\<rparr>)
             | Some m2 \<Rightarrow> (None, i\<lparr>mmap := m2, size_ix := size_ix i + entWidth\<rparr>))))"

text \<open>
  The \<open>k\<close>-th 12-byte entry of a mapped region, decoded: the pair that \<open>Read\<close> returns for
  entry number \<open>k\<close>. It is \<open>None\<close> when the entry does not lie inside the region.
\<close>

definition entry_at :: "byte list \<Rightarrow> nat \<Rightarrow> (32 word \<times> 64 word) option" where
  "entry_at m k =
     (case (Option.bind (slice m (12 * k) (12 * k + 4)) Uint32,
            Option.bind (slice m (12 * k + 4) (12 * k + 12)) Uint64) of
        (Some off, Some pos) \<Rightarrow> Some (off, pos)
      | _ \<Rightarrow> None)"

section \<open>The segment\<close>

text \<open>\<open>message Record { bytes value = 1; uint64 offset = 2; }\<close>\<close>

record Record =
  Value :: "byte list"
  Offset :: "64 word"

text \<open>
  \<open>proto.Marshal\<close> and \<open>proto.Unmarshal\<close> belong to the protobuf library: the segment
  takes them as a parameter.
\<close>

record proto =
  Marshal :: "Record \<Rightarrow> error + byte list"
  Unmarshal :: "byte list \<Rightarrow> error + Record"

record segment =
  store :: store
  index :: index
  baseOffset :: "64 word"
  nextOffset :: "64 word"
  config :: Config

text \<open>
  \<open>func newSegment(dir string, baseOffset uint64, c Config) (*segment, error)\<close>. The two
  arguments \<open>storeFile\<close> and \<open>indexFile\<close> are the results of the two \<open>os.OpenFile\<close> calls.
  A panic inside \<open>index.Read\<close> is not an error value the \<open>if\<close> could see: it ends the call.
\<close>

definition newSegment :: "error + osfile \<Rightarrow> error + osfile \<Rightarrow> 64 word \<Rightarrow> Config \<Rightarrow> error + segment" where
  "newSegment storeFile indexFile b c =
     (case storeFile of
        Inl e \<Rightarrow> Inl e
      | Inr sf \<Rightarrow>
         (case newStore sf of
            Inl e \<Rightarrow> Inl e
          | Inr st \<Rightarrow>
             (case indexFile of
                Inl e \<Rightarrow> Inl e
              | Inr xf \<Rightarrow>
                 (case newIndex xf c of
                    Inl e \<Rightarrow> Inl e
                  | Inr ix \<Rightarrow>
                     (case index_Read ix (- 1) of
                        Inl Panic \<Rightarrow> Inl Panic
                      | Inl _ \<Rightarrow>
                          Inr \<lparr>store = st, index = ix, baseOffset = b, nextOffset = b, config = c\<rparr>
                      | Inr (off, _) \<Rightarrow>
                          Inr \<lparr>store = st, index = ix, baseOffset = b,
                               nextOffset = b + ucast off + 1, config = c\<rparr>)))))"

text \<open>\<open>func (s *segment) Append(record *api.Record) (offset uint64, err error)\<close>\<close>

definition segment_Append :: "proto \<Rightarrow> Record \<Rightarrow> segment \<Rightarrow> (error + 64 word) \<times> segment" where
  "segment_Append pb record s =
     (let cur = nextOffset s in
      case Marshal pb (record\<lparr>Offset := cur\<rparr>) of
        Inl e \<Rightarrow> (Inl e, s)
      | Inr p \<Rightarrow>
         (case store_Append p (store s) of
            (Inl e, st) \<Rightarrow> (Inl e, s\<lparr>store := st\<rparr>)
          | (Inr (_, pos), st) \<Rightarrow>
             (case index_Write (ucast (nextOffset s - baseOffset s)) pos (index s) of
                (Some e, ix) \<Rightarrow> (Inl e, s\<lparr>store := st, index := ix\<rparr>)
              | (None, ix) \<Rightarrow>
                 (Inr cur, s\<lparr>store := st, index := ix, nextOffset := nextOffset s + 1\<rparr>))))"

text \<open>\<open>func (s *segment) Read(off uint64) (*api.Record, error)\<close>\<close>

definition segment_Read :: "proto \<Rightarrow> 64 word \<Rightarrow> segment \<Rightarrow> (error + Record) \<times> segment" where
  "segment_Read pb off s =
     (case index_Read (index s) (off - baseOffset s) of
        Inl e \<Rightarrow> (Inl e, s)
      | Inr (_, pos) \<Rightarrow>
         (case store_Read pos (store s) of
            (Inl e, st) \<Rightarrow> (Inl e, s\<lparr>store := st\<rparr>)
          | (Inr p, st) \<Rightarrow> (Unmarshal pb p, s\<lparr>store := st\<rparr>)))"

text \<open>\<open>func (s *segment) IsMaxed() bool\<close>\<close>

definition segment_IsMaxed :: "segment \<Rightarrow> bool" where
  "segment_IsMaxed s \<longleftrightarrow>
     MaxStoreBytes (config s) \<le> size_st (store s) \<or> MaxStoreBytes (config s) \<le> size_ix (index s)"

text \<open>What the test of the package does: append the records in order, then read the offsets in order.\<close>

fun append_all :: "proto \<Rightarrow> Record list \<Rightarrow> segment \<Rightarrow> (error + 64 word list) \<times> segment" where
  "append_all pb [] s = (Inr [], s)"
| "append_all pb (r # rs) s =
     (case segment_Append pb r s of
        (Inl e, s') \<Rightarrow> (Inl e, s')
      | (Inr off, s') \<Rightarrow>
         (case append_all pb rs s' of
            (Inl e, s'') \<Rightarrow> (Inl e, s'')
          | (Inr offs, s'') \<Rightarrow> (Inr (off # offs), s'')))"

fun read_all :: "proto \<Rightarrow> 64 word list \<Rightarrow> segment \<Rightarrow> (error + Record list) \<times> segment" where
  "read_all pb [] s = (Inr [], s)"
| "read_all pb (off # offs) s =
     (case segment_Read pb off s of
        (Inl e, s') \<Rightarrow> (Inl e, s')
      | (Inr r, s') \<Rightarrow>
         (case read_all pb offs s' of
            (Inl e, s'') \<Rightarrow> (Inl e, s'')
          | (Inr rs, s'') \<Rightarrow> (Inr (r # rs), s'')))"

section \<open>Notions used to state the properties\<close>

text \<open>The unit the store holds for a payload: its length in 8 bytes, then the payload.\<close>

definition frame :: "byte list \<Rightarrow> byte list" where
  "frame p = PutUint64 (of_nat (length p)) @ p"

text \<open>The bytes of the store in write order: those in the file, then those still buffered.\<close>

definition logical :: "store \<Rightarrow> byte list" where
  "logical s = content (File s) @ wbuf (buf s)"

text \<open>The bytes the device can take beyond those already buffered.\<close>

definition spare :: "store \<Rightarrow> nat" where
  "spare s = room (File s) - length (wbuf (buf s))"

text \<open>
  The contract of the protobuf library the segment relies on: what \<open>Marshal\<close> produced,
  \<open>Unmarshal\<close> reads back as the same message.
\<close>

definition proto_ok :: "proto \<Rightarrow> bool" where
  "proto_ok pb \<longleftrightarrow> (\<forall>r p. Marshal pb r = Inr p \<longrightarrow> Unmarshal pb p = Inr r)"

text \<open>
  The payloads \<open>Append\<close> hands to the store for the records \<open>rs\<close> when the first of them
  gets the offset \<open>off\<close>: each record is marshalled with its offset set. \<open>None\<close> when a
  record cannot be marshalled.
\<close>

fun stamped_payloads :: "proto \<Rightarrow> 64 word \<Rightarrow> Record list \<Rightarrow> byte list list option" where
  "stamped_payloads pb off [] = Some []"
| "stamped_payloads pb off (r # rs) =
     (case Marshal pb (r\<lparr>Offset := off\<rparr>) of
        Inl e \<Rightarrow> None
      | Inr p \<Rightarrow> map_option ((#) p) (stamped_payloads pb (off + 1) rs))"

text \<open>
  The segment \<open>s\<close> holds exactly the payloads \<open>ps\<close>: the store consists of their frames, the
  index has one entry per payload, entry \<open>k\<close> giving the relative offset \<open>k\<close> and the
  position of frame \<open>k\<close>, and \<open>nextOffset\<close> is the base offset plus their number.
\<close>

definition seg_holds :: "segment \<Rightarrow> byte list list \<Rightarrow> bool" where
  "seg_holds s ps \<longleftrightarrow>
     werr (buf (store s)) = None
   \<and> length (wbuf (buf (store s))) \<le> room (File (store s))
   \<and> logical (store s) = concat (map frame ps)
   \<and> length (concat (map frame ps)) < 2 ^ 63
   \<and> size_st (store s) = of_nat (length (concat (map frame ps)))
   \<and> unat (size_ix (index s)) = 12 * length ps
   \<and> 12 * length ps \<le> length (mmap (index s))
   \<and> length (mmap (index s)) < 2 ^ 63
   \<and> (\<forall>k < length ps. entry_at (mmap (index s)) k
          = Some (of_nat k, of_nat (length (concat (map frame (take k ps))))))
   \<and> nextOffset s = baseOffset s + of_nat (length ps)"

section \<open>A protobuf codec and example values\<close>

text \<open>
  An instance of the parameter \<open>proto\<close>, used where the properties are run on concrete
  values: the protobuf wire format of \<open>Record\<close> (field 1, length-delimited: the value;
  field 2, varint: the offset; a field with the default value is left out). \<open>Unmarshal\<close>
  here accepts the fields in that order only.
\<close>

function varint :: "nat \<Rightarrow> byte list" where
  "varint n = (if n < 128 then [of_nat n] else of_nat (128 + n mod 128) # varint (n div 128))"
  by pat_completeness auto
termination by (relation "measure id") auto

declare varint.simps [simp del]

fun unvarint :: "byte list \<Rightarrow> (nat \<times> byte list) option" where
  "unvarint [] = None"
| "unvarint (b # bs) =
     (if b < 128 then Some (unat b, bs)
      else (case unvarint bs of None \<Rightarrow> None | Some (v, r) \<Rightarrow> Some (unat b - 128 + 128 * v, r)))"

definition wire_Marshal :: "Record \<Rightarrow> error + byte list" where
  "wire_Marshal r =
     (let b = (if Value r = [] then [] else 10 # varint (length (Value r)) @ Value r)
            @ (if Offset r = 0 then [] else 16 # varint (unat (Offset r)))
      in if 2 ^ 31 \<le> length b then Inl ErrMarshal else Inr b)"

definition wire_Unmarshal :: "byte list \<Rightarrow> error + Record" where
  "wire_Unmarshal b =
     (case (case b of
              [] \<Rightarrow> Some ([], [])
            | t # r \<Rightarrow>
               if t = 10 then
                 (case unvarint r of
                    None \<Rightarrow> None
                  | Some (n, r') \<Rightarrow> if n \<le> length r' then Some (take n r', drop n r') else None)
               else Some ([], b)) of
        None \<Rightarrow> Inl ErrUnmarshal
      | Some (v, rest) \<Rightarrow>
         (case rest of
            [] \<Rightarrow> Inr \<lparr>Value = v, Offset = 0\<rparr>
          | t # r \<Rightarrow>
             if t = 16 then
               (case unvarint r of
                  Some (x, []) \<Rightarrow> Inr \<lparr>Value = v, Offset = of_nat x\<rparr>
                | _ \<Rightarrow> Inl ErrUnmarshal)
             else Inl ErrUnmarshal))"

definition wire :: proto where
  "wire = \<lparr>Marshal = wire_Marshal, Unmarshal = wire_Unmarshal\<rparr>"

text \<open>The configuration of the example scenario: an index of ten entries.\<close>

definition ex_config :: Config where
  "ex_config = \<lparr>MaxStoreBytes = 1024, MaxIndexBytes = 120, InitialOffset = 0\<rparr>"

definition empty_file :: "nat \<Rightarrow> osfile" where
  "empty_file r = \<lparr>content = [], room = r, unlinked = False\<rparr>"

definition rec_of :: "byte list \<Rightarrow> Record" where
  "rec_of v = \<lparr>Value = v, Offset = 0\<rparr>"

definition ex_index :: index where
  "ex_index = \<lparr>file_ix = empty_file 0, mmap = PutUint32 0 @ PutUint64 0 @ replicate 12 0, size_ix = 12\<rparr>"

definition ex_store :: store where
  "ex_store = \<lparr>File = empty_file 100, buf = \<lparr>wbuf = [], werr = None\<rparr>, size_st = 0\<rparr>"

text \<open>
  Three records with the payloads \<open>a\<close>, \<open>bb\<close>, \<open>ccc\<close>, what they are marshalled to with the
  offsets 0, 1, 2, and the segment \<open>newSegment\<close> returns over two empty files.
\<close>

definition ex_records :: "Record list" where
  "ex_records = [rec_of [97], rec_of [98, 98], rec_of [99, 99, 99]]"

definition ex_payloads :: "byte list list" where
  "ex_payloads = [[10, 1, 97], [10, 2, 98, 98, 16, 1], [10, 3, 99, 99, 99, 16, 2]]"

definition ex_fresh :: segment where
  "ex_fresh = \<lparr>store = \<lparr>File = empty_file 1000, buf = \<lparr>wbuf = [], werr = None\<rparr>, size_st = 0\<rparr>,
               index = \<lparr>file_ix = \<lparr>content = replicate 120 0, room = 0, unlinked = False\<rparr>,
                        mmap = replicate 120 0, size_ix = 0\<rparr>,
               baseOffset = 0, nextOffset = 0, config = ex_config\<rparr>"

text \<open>Ten records, as many as the index of \<open>ex_config\<close> has room for.\<close>

definition ex_ten :: "Record list" where
  "ex_ten = [rec_of [97], rec_of [97], rec_of [97], rec_of [97], rec_of [97],
             rec_of [97], rec_of [97], rec_of [97], rec_of [97], rec_of [97]]"

definition ex_ten_payloads :: "byte list list" where
  "ex_ten_payloads = [[10, 1, 97], [10, 1, 97, 16, 1], [10, 1, 97, 16, 2], [10, 1, 97, 16, 3],
     [10, 1, 97, 16, 4], [10, 1, 97, 16, 5], [10, 1, 97, 16, 6], [10, 1, 97, 16, 7],
     [10, 1, 97, 16, 8], [10, 1, 97, 16, 9]]"

text \<open>
  A segment with room for three index entries, after two appends. \<open>ex_store_file\<close> is its
  store file once the buffer is flushed. \<open>ex_crash_index_file\<close> is its index file while it is mapped: two entries and
  twelve zero bytes; the file stays so when the process ends without \<open>Close\<close>, and a closed
  index file (\<open>ex_clean_index_file\<close>, cut to the bytes used) becomes so again when it is
  opened. \<open>ex_reopened\<close> and \<open>ex_reopened_clean\<close> are the segments \<open>newSegment\<close> returns
  over the one and the other.
\<close>

definition ex_config36 :: Config where
  "ex_config36 = \<lparr>MaxStoreBytes = 1024, MaxIndexBytes = 36, InitialOffset = 0\<rparr>"

definition ex_store_file :: osfile where
  "ex_store_file = \<lparr>content = frame [10, 1, 97] @ frame [10, 1, 97, 16, 1], room = 1000, unlinked = False\<rparr>"

definition ex_crash_index_file :: osfile where
  "ex_crash_index_file =
     \<lparr>content = PutUint32 0 @ PutUint64 0 @ PutUint32 1 @ PutUint64 11
                @ [0, 0, 0, 0, 0, 0, 0, 0, 0, 0, 0, 0],
      room = 0, unlinked = False\<rparr>"

definition ex_clean_index_file :: osfile where
  "ex_clean_index_file =
     \<lparr>content = PutUint32 0 @ PutUint64 0 @ PutUint32 1 @ PutUint64 11, room = 0, unlinked = False\<rparr>"

definition ex_reopened :: segment where
  "ex_reopened =
     \<lparr>store = \<lparr>File = ex_store_file, buf = \<lparr>wbuf = [], werr = None\<rparr>, size_st = 24\<rparr>,
      index = \<lparr>file_ix = ex_crash_index_file, mmap = content ex_crash_index_file, size_ix = 36\<rparr>,
      baseOffset = 0, nextOffset = 1, config = ex_config36\<rparr>"

definition ex_reopened_clean :: segment where
  "ex_reopened_clean =
     \<lparr>store = \<lparr>File = ex_store_file, buf = \<lparr>wbuf = [], werr = None\<rparr>, size_st = 24\<rparr>,
      index = \<lparr>file_ix = ex_crash_index_file, mmap = content ex_crash_index_file, size_ix = 24\<rparr>,
      baseOffset = 0, nextOffset = 2, config = ex_config36\<rparr>"

definition ex_fresh36 :: segment where
  "ex_fresh36 = \<lparr>store = \<lparr>File = empty_file 1024, buf = \<lparr>wbuf = [], werr = None\<rparr>, size_st = 0\<rparr>,
               index = \<lparr>file_ix = \<lparr>content = replicate 36 0, room = 0, unlinked = False\<rparr>,
                        mmap = replicate 36 0, size_ix = 0\<rparr>,
               baseOffset = 0, nextOffset = 0, config = ex_config36\<rparr>"

text \<open>
  One record more than 32 bits can number: \<open>2^32\<close> records with the payload \<open>a\<close>, then one
  with the payload \<open>b\<close>; an index with room for their \<open>2^32 + 1\<close> entries and a device with
  room for their frames. \<open>ex_big_offsets\<close> are the offsets \<open>0, ..., 2^32\<close>, and record \<open>k\<close>
  of \<open>ex_big_read\<close> is record \<open>k mod 2^32\<close> of \<open>ex_big\<close> with that offset.
\<close>

definition ex_big :: "Record list" where
  "ex_big = replicate 4294967296 (rec_of [97]) @ [rec_of [98]]"

definition ex_big_config :: Config where
  "ex_big_config = \<lparr>MaxStoreBytes = 1099511627776, MaxIndexBytes = 51539607564, InitialOffset = 0\<rparr>"

definition ex_big_fresh :: segment where
  "ex_big_fresh =
     \<lparr>store = \<lparr>File = empty_file 1099511627776, buf = \<lparr>wbuf = [], werr = None\<rparr>, size_st = 0\<rparr>,
      index = \<lparr>file_ix = \<lparr>content = replicate 51539607564 0, room = 0, unlinked = False\<rparr>,
               mmap = replicate 51539607564 0, size_ix = 0\<rparr>,
      baseOffset = 0, nextOffset = 0, config = ex_big_config\<rparr>"

definition ex_big_offsets :: "64 word list" where
  "ex_big_offsets = map of_nat [0..<length ex_big]"

definition ex_big_read :: "Record list" where
  "ex_big_read =
     map (\<lambda>k. (ex_big ! (k mod 2 ^ 32))\<lparr>Offset := of_nat (k mod 2 ^ 32)\<rparr>) [0..<length ex_big]"

section \<open>Properties of the encoder\<close>

lemma length_PutUint32 [simp]: "length (PutUint32 v) = 4"
  by (simp add: PutUint32_def)

lemma length_PutUint64 [simp]: "length (PutUint64 v) = 8"
  by (simp add: PutUint64_def)

lemma Uint32_PutUint32: "Uint32 (PutUint32 v @ r) = Some v"
proof -
  define w :: "32 word" where
    "w = ucast (ucast v :: byte) OR push_bit 8 (ucast (ucast (drop_bit 8 v) :: byte))
        OR push_bit 16 (ucast (ucast (drop_bit 16 v) :: byte))
        OR push_bit 24 (ucast (ucast (drop_bit 24 v) :: byte))"
  have "w = v"
  proof (rule bit_word_eqI)
    fix n assume n: "n < LENGTH(32)"
    consider "n < 8" | "8 \<le> n" "n < 16" | "16 \<le> n" "n < 24" | "24 \<le> n" by linarith
    then show "bit w n = bit v n"
      using n unfolding w_def by cases (auto simp add: bit_simps)
  qed
  then show ?thesis by (simp add: PutUint32_def w_def)
qed

lemma Uint64_PutUint64: "Uint64 (PutUint64 v @ r) = Some v"
proof -
  define w :: "64 word" where
    "w = ucast (ucast v :: byte) OR push_bit 8 (ucast (ucast (drop_bit 8 v) :: byte))
        OR push_bit 16 (ucast (ucast (drop_bit 16 v) :: byte))
        OR push_bit 24 (ucast (ucast (drop_bit 24 v) :: byte))
        OR push_bit 32 (ucast (ucast (drop_bit 32 v) :: byte))
        OR push_bit 40 (ucast (ucast (drop_bit 40 v) :: byte))
        OR push_bit 48 (ucast (ucast (drop_bit 48 v) :: byte))
        OR push_bit 56 (ucast (ucast (drop_bit 56 v) :: byte))"
  have "w = v"
  proof (rule bit_word_eqI)
    fix n assume n: "n < LENGTH(64)"
    consider "n < 8" | "8 \<le> n" "n < 16" | "16 \<le> n" "n < 24" | "24 \<le> n" "n < 32"
      | "32 \<le> n" "n < 40" | "40 \<le> n" "n < 48" | "48 \<le> n" "n < 56" | "56 \<le> n" by linarith
    then show "bit w n = bit v n"
      using n unfolding w_def by cases (auto simp add: bit_simps)
  qed
  then show ?thesis by (simp add: PutUint64_def w_def)
qed

lemma Uint32_not_None: "4 \<le> length b \<Longrightarrow> Uint32 b \<noteq> None"
  by (cases b rule: Uint32.cases) auto

lemma Uint64_not_None: "8 \<le> length b \<Longrightarrow> Uint64 b \<noteq> None"
  by (cases b rule: Uint64.cases) auto

section \<open>Word arithmetic\<close>

lemma widths [simp]: "offWidth = 4" "posWidth = 8" "entWidth = 12" "lenWidth = 8"
  by (simp_all add: offWidth_def posWidth_def entWidth_def lenWidth_def)

lemma unat_of_nat64: "n < 2 ^ 64 \<Longrightarrow> unat (of_nat n :: 64 word) = n"
  by (simp add: unat_of_nat)

lemma unat_plus64:
  "unat (a :: 64 word) + n < 2 ^ 64 \<Longrightarrow> unat (a + of_nat n) = unat a + n"
  by (simp add: unat_word_ariths unat_of_nat)

lemma unat_add_no_wrap:
  assumes "unat (s :: 64 word) + n \<le> unat (s + of_nat n)"
  shows "unat (s + of_nat n) = unat s + n"
proof -
  have "unat (s + of_nat n) = (unat s + n mod 2 ^ 64) mod 2 ^ 64"
    by (simp add: unat_word_ariths unat_of_nat)
  also have "\<dots> = (unat s + n) mod 2 ^ 64" by (simp add: mod_simps)
  finally have e: "unat (s + of_nat n) = (unat s + n) mod 2 ^ 64" .
  have "(unat s + n) mod 2 ^ 64 \<le> unat s + n" by simp
  then show ?thesis using assms e by simp
qed

lemma unat_size_plus:
  assumes "unat (sz :: 64 word) + 12 < 2 ^ 64"
  shows "unat (sz + 4) = unat sz + 4" and "unat (sz + 12) = unat sz + 12"
  using assms unat_plus64 [of sz 4] unat_plus64 [of sz 12] by simp_all

lemma unat_ent_pos:
  fixes out :: "32 word"
  shows "unat ((ucast out :: 64 word) * 12) = 12 * unat out"
    and "unat ((ucast out :: 64 word) * 12 + 4) = 12 * unat out + 4"
    and "unat ((ucast out :: 64 word) * 12 + 12) = 12 * unat out + 12"
proof -
  have b: "unat out < 2 ^ 32" using unsigned_less [of out] by simp
  have u: "unat (ucast out :: 64 word) = unat out"
    using b by (simp add: unsigned_ucast_eq take_bit_nat_eq_self)
  show 1: "unat ((ucast out :: 64 word) * 12) = 12 * unat out"
    using b by (simp add: unat_word_ariths u)
  show "unat ((ucast out :: 64 word) * 12 + 4) = 12 * unat out + 4"
    using b 1 by (simp add: unat_word_ariths)
  show "unat ((ucast out :: 64 word) * 12 + 12) = 12 * unat out + 12"
    using b 1 by (simp add: unat_word_ariths)
qed

lemma nonneg_sint_unat: "0 \<le> sint (w :: 64 word) \<Longrightarrow> nat (sint w) = unat w"
proof -
  assume a: "0 \<le> sint w"
  have "sint w < 2 ^ 63" using sint_less [of w] by simp
  then have "take_bit 64 (sint w) = sint w" using a by (simp add: take_bit_int_eq_self)
  then have "uint w = sint w" by (simp add: uint_sint)
  then show ?thesis by (metis nat_uint_eq)
qed

lemma last_entry_number:
  assumes "unat (sz :: 64 word) = 12 * K" "1 \<le> K"
  shows "sz div 12 - 1 = of_nat (K - 1)" and "(of_nat (K - 1) :: 64 word) \<noteq> - 1" and "sz \<noteq> 0"
proof -
  have K: "12 * K < 2 ^ 64" using unsigned_less [of sz, where 'a=nat] assms by simp
  have "unat (sz div 12) = K" using assms by (simp add: unat_div)
  then have "sz div 12 = of_nat K" by (metis of_nat_unat ucast_id)
  then show "sz div 12 - 1 = of_nat (K - 1)" using assms(2) by simp
  have "unat (of_nat (K - 1) :: 64 word) = K - 1" using K by (simp add: unat_of_nat64)
  moreover have "unat (- 1 :: 64 word) = 2 ^ 64 - 1"
    by (simp add: unsigned_minus_1_eq_mask mask_eq_exp_minus_1)
  ultimately show "(of_nat (K - 1) :: 64 word) \<noteq> - 1" using K by auto
  show "sz \<noteq> 0" using assms by auto
qed

lemma sint_of_nat63:
  assumes "n < 2 ^ 63"
  shows "\<not> sint (of_nat n :: 64 word) < 0" and "unat (of_nat n :: 64 word) = n"
proof -
  show u: "unat (of_nat n :: 64 word) = n" using assms by (simp add: unat_of_nat64)
  have "uint (of_nat n :: 64 word) = int n" using u by (metis uint_nat)
  moreover have "signed_take_bit 63 (int n) = int n"
    using assms by (intro signed_take_bit_int_eq_self) auto
  ultimately have "sint (of_nat n :: 64 word) = int n" by (simp add: sint_uint)
  then show "\<not> sint (of_nat n :: 64 word) < 0" by simp
qed

lemma ucast_of_nat_32: "(ucast (of_nat k :: 64 word) :: 32 word) = of_nat k"
proof -
  have "unat (ucast (of_nat k :: 64 word) :: 32 word) = unat (of_nat k :: 32 word)"
    by (simp add: unsigned_ucast_eq unsigned_of_nat min_def)
  then show ?thesis by (metis word_unat_eq_iff)
qed

lemma of_nat_ne_minus1:
  assumes "k < 2 ^ 64 - 1"
  shows "(of_nat k :: 64 word) \<noteq> - 1"
proof
  assume "(of_nat k :: 64 word) = - 1"
  then have "unat (of_nat k :: 64 word) = unat (- 1 :: 64 word)" by simp
  moreover have "unat (of_nat k :: 64 word) = k" using assms by (simp add: unat_of_nat64)
  moreover have "unat (- 1 :: 64 word) = 2 ^ 64 - 1"
    by (simp add: unsigned_minus_1_eq_mask mask_eq_exp_minus_1)
  ultimately show False using assms by simp
qed

lemma unat_of_nat_32_64:
  assumes "k < 2 ^ 32"
  shows "unat (ucast (of_nat k :: 64 word) :: 32 word) = k"
  using assms by (simp add: ucast_of_nat_32 unat_of_nat)

lemma unat_ucast_of_nat_32: "unat (ucast (of_nat k :: 64 word) :: 32 word) = k mod 2 ^ 32"
  by (simp add: ucast_of_nat_32 unat_of_nat)

lemma of_nat_mod_32: "(of_nat (k mod 2 ^ 32) :: 32 word) = of_nat k"
proof -
  have "unat (of_nat (k mod 2 ^ 32) :: 32 word) = unat (of_nat k :: 32 word)"
    by (simp add: unat_of_nat)
  then show ?thesis by (metis word_unat_eq_iff)
qed

section \<open>Properties of the index\<close>

lemma entry_at_Some: "12 * k + 12 \<le> length m \<Longrightarrow> \<exists>e. entry_at m k = Some e"
proof -
  assume a: "12 * k + 12 \<le> length m"
  have 1: "Uint32 (take 4 (drop (12 * k) m)) \<noteq> None"
    using a by (intro Uint32_not_None) simp
  have 2: "Uint64 (take 8 (drop (12 * k + 4) m)) \<noteq> None"
    using a by (intro Uint64_not_None) simp
  show ?thesis using a 1 2 by (auto simp: entry_at_def slice_def)
qed

text \<open>\<open>Read\<close> in terms of entry numbers.\<close>

lemma index_Read_entry:
  "index_Read i inp =
     (if size_ix i = 0 then Inl EOF
      else let out = (if inp = - 1 then ucast (size_ix i div 12 - 1) else ucast inp) :: 32 word
           in if unat (size_ix i) < 12 * unat out + 12 then Inl EOF
              else (case entry_at (mmap i) (unat out) of None \<Rightarrow> Inl Panic | Some e \<Rightarrow> Inr e))"
  by (simp add: index_Read_def Let_def entry_at_def unat_ent_pos word_less_nat_alt
      split: option.splits)

lemma index_Write_full_iff:
  assumes "unat (size_ix i) + 12 < 2 ^ 64" and "length (mmap i) < 2 ^ 64"
  shows "((of_nat (length (mmap i)) :: 64 word) < size_ix i + entWidth)
     = (length (mmap i) < unat (size_ix i) + 12)"
  using assms by (simp add: word_less_nat_alt unat_size_plus unat_of_nat64)

lemma index_Write_ok:
  assumes "unat (size_ix i) + 12 \<le> length (mmap i)" and "length (mmap i) < 2 ^ 64"
  shows "index_Write off pos i =
     (None, i\<lparr>mmap := take (unat (size_ix i)) (mmap i) @ PutUint32 off @ PutUint64 pos
                      @ drop (unat (size_ix i) + 12) (mmap i),
               size_ix := size_ix i + 12\<rparr>)"
proof -
  have nw: "unat (size_ix i) + 12 < 2 ^ 64" using assms by simp
  have full: "\<not> (of_nat (length (mmap i)) :: 64 word) < size_ix i + entWidth"
    using index_Write_full_iff [OF nw assms(2)] assms(1) by simp
  let ?n = "unat (size_ix i)"
  let ?m1 = "take ?n (mmap i) @ PutUint32 off @ drop (?n + 4) (mmap i)"
  have p1: "put_slice (mmap i) ?n (?n + 4) (PutUint32 off) = Some ?m1"
    using assms(1) by (simp add: put_slice_def)
  have tk: "take (?n + 4) ?m1 = take ?n (mmap i) @ PutUint32 off"
    using assms(1) by simp
  have dr: "drop (?n + 12) ?m1 = drop (?n + 12) (mmap i)"
    using assms(1) by (simp add: add.commute)
  have p2: "put_slice ?m1 (?n + 4) (?n + 12) (PutUint64 pos)
      = Some (take ?n (mmap i) @ PutUint32 off @ PutUint64 pos @ drop (?n + 12) (mmap i))"
    using assms(1) tk dr by (simp add: put_slice_def add.commute add.left_commute)
  show ?thesis
    using full p1 p2 by (simp add: index_Write_def unat_size_plus [OF nw])
qed

lemma index_Write_None:
  assumes "index_Write off pos i = (None, i')"
  shows "unat (size_ix i) + 12 \<le> length (mmap i) \<and> unat (size_ix i + 12) = unat (size_ix i) + 12
       \<and> i' = i\<lparr>mmap := take (unat (size_ix i)) (mmap i) @ PutUint32 off @ PutUint64 pos
                      @ drop (unat (size_ix i) + 12) (mmap i),
                 size_ix := size_ix i + 12\<rparr>"
proof -
  let ?n = "unat (size_ix i)"
  let ?m1 = "take ?n (mmap i) @ PutUint32 off @ drop (?n + 4) (mmap i)"
  have nf: "\<not> (of_nat (length (mmap i)) :: 64 word) < size_ix i + entWidth"
    using assms by (auto simp: index_Write_def)
  obtain m1 where p1: "put_slice (mmap i) ?n (unat (size_ix i + 4)) (PutUint32 off) = Some m1"
    using assms nf by (auto simp: index_Write_def split: option.splits)
  obtain m2 where p2: "put_slice m1 (unat (size_ix i + 4)) (unat (size_ix i + 12)) (PutUint64 pos) = Some m2"
      and i': "i' = i\<lparr>mmap := m2, size_ix := size_ix i + 12\<rparr>"
    using assms nf p1 by (auto simp: index_Write_def split: option.splits)
  have c1: "?n \<le> unat (size_ix i + 4)" "unat (size_ix i + 4) \<le> length (mmap i)"
      "4 \<le> unat (size_ix i + 4) - ?n" and m1: "m1 = ?m1"
    using p1 by (auto simp: put_slice_def split: if_splits)
  have u4: "unat (size_ix i + 4) = ?n + 4"
    using unat_add_no_wrap [of "size_ix i" 4] c1(1,3) by simp
  have c2: "unat (size_ix i + 4) \<le> unat (size_ix i + 12)" "unat (size_ix i + 12) \<le> length m1"
      "8 \<le> unat (size_ix i + 12) - unat (size_ix i + 4)"
      and m2: "m2 = take (?n + 4) m1 @ PutUint64 pos @ drop (?n + 4 + 8) m1"
    using p2 u4 by (auto simp: put_slice_def split: if_splits)
  have u12: "unat (size_ix i + 12) = ?n + 12"
    using unat_add_no_wrap [of "size_ix i" 12] c2(1,3) u4 by simp
  have lm1: "length m1 = length (mmap i)" using m1 c1(2) u4 by simp
  have le: "?n + 12 \<le> length (mmap i)" using c2(2) u12 lm1 by simp
  have tk: "take (?n + 4) ?m1 = take ?n (mmap i) @ PutUint32 off" using le by simp
  have dr: "drop (?n + 12) ?m1 = drop (?n + 12) (mmap i)" using le by (simp add: add.commute)
  have "m2 = take ?n (mmap i) @ PutUint32 off @ PutUint64 pos @ drop (?n + 12) (mmap i)"
    using m2 m1 tk dr by (simp add: add.assoc)
  then show ?thesis using le u12 i' by simp
qed

text \<open>An entry survives a write behind it; the written entry is read back.\<close>

lemma entry_at_kept:
  assumes "12 * k + 12 \<le> n" and "n \<le> length m"
  shows "entry_at (take n m @ e) k = entry_at m k"
proof -
  have 1: "take 4 (drop (12 * k) (take n m)) = take 4 (drop (12 * k) m)"
    using assms by (simp add: drop_take)
  have 2: "take 8 (drop (12 * k + 4) (take n m)) = take 8 (drop (12 * k + 4) m)"
    using assms by (simp add: drop_take)
  show ?thesis using assms 1 2 by (simp add: entry_at_def slice_def)
qed

lemma entry_at_written:
  assumes "n = 12 * k" and "n \<le> length m"
  shows "entry_at (take n m @ PutUint32 off @ PutUint64 pos @ r) k = Some (off, pos)"
proof -
  have d: "drop (12 * k) (take n m @ PutUint32 off @ PutUint64 pos @ r)
      = PutUint32 off @ PutUint64 pos @ r" using assms by simp
  have d4: "drop (12 * k + 4) (take n m @ PutUint32 off @ PutUint64 pos @ r)
      = PutUint64 pos @ r" using assms by (simp add: add.commute [of _ 4] drop_Suc)
  have "Uint32 (take 4 (PutUint32 off @ PutUint64 pos @ r)) = Some off"
    using Uint32_PutUint32 [of off "[]"] by simp
  moreover have "Uint64 (take 8 (PutUint64 pos @ r)) = Some pos"
    using Uint64_PutUint64 [of pos "[]"] by simp
  ultimately show ?thesis using assms by (simp add: entry_at_def slice_def d d4)
qed

text \<open>
  Claim C5. \<open>Write(off, pos)\<close> returns the full-index error (\<open>io.EOF\<close>) exactly when
  \<open>uint64(len(mmap)) < size + 12\<close>, and then the index is unchanged. When it returns no
  error, \<open>size\<close> has grown by exactly 12, the bytes before the old \<open>size\<close> (all entries
  written before) and those after the new entry are unchanged, and the new entry is the
  encoding of \<open>off\<close> and \<open>pos\<close>. When \<open>size + 12\<close> does not overflow a \<open>uint64\<close> (the size
  comes from an \<open>int64\<close> file size and grows only below \<open>len(mmap)\<close>), the test is the
  comparison of the numbers, and there is no third outcome.
\<close>

theorem index_Write_IndexFull:
  assumes "index_Write off pos i = (err, i')"
  shows "(err = Some EOF \<longleftrightarrow> (of_nat (length (mmap i)) :: 64 word) < size_ix i + 12)
       \<and> (err = Some EOF \<longrightarrow> i' = i)
       \<and> (err = None \<longrightarrow>
            size_ix i' = size_ix i + 12
          \<and> unat (size_ix i') = unat (size_ix i) + 12
          \<and> length (mmap i') = length (mmap i)
          \<and> take (unat (size_ix i)) (mmap i') = take (unat (size_ix i)) (mmap i)
          \<and> take 12 (drop (unat (size_ix i)) (mmap i')) = PutUint32 off @ PutUint64 pos
          \<and> drop (unat (size_ix i) + 12) (mmap i') = drop (unat (size_ix i) + 12) (mmap i))
       \<and> (unat (size_ix i) + 12 < 2 ^ 64 \<and> length (mmap i) < 2 ^ 64 \<longrightarrow>
            (err = Some EOF \<longleftrightarrow> length (mmap i) < unat (size_ix i) + 12)
          \<and> (err = Some EOF \<or> err = None))"
proof (intro conjI impI)
  show full: "(err = Some EOF) = ((of_nat (length (mmap i)) :: 64 word) < size_ix i + 12)"
    using assms by (auto simp: index_Write_def split: option.splits if_splits)
  show "i' = i" if "err = Some EOF"
    using assms that by (auto simp: index_Write_def split: option.splits if_splits)
  {
    assume "err = None"
    then have w: "index_Write off pos i = (None, i')" using assms by simp
    note N = index_Write_None [OF w]
    show "size_ix i' = size_ix i + 12" using N by simp
    show "unat (size_ix i') = unat (size_ix i) + 12" using N by simp
    show "length (mmap i') = length (mmap i)" using N by simp
    show "take (unat (size_ix i)) (mmap i') = take (unat (size_ix i)) (mmap i)" using N by simp
    show "take 12 (drop (unat (size_ix i)) (mmap i')) = PutUint32 off @ PutUint64 pos"
      using N by simp
    show "drop (unat (size_ix i) + 12) (mmap i') = drop (unat (size_ix i) + 12) (mmap i)"
      using N by (simp add: add.commute)
  }
  {
    assume b: "unat (size_ix i) + 12 < 2 ^ 64 \<and> length (mmap i) < 2 ^ 64"
    then have iff: "((of_nat (length (mmap i)) :: 64 word) < size_ix i + entWidth)
        = (length (mmap i) < unat (size_ix i) + 12)"
      using index_Write_full_iff by blast
    show "(err = Some EOF) = (length (mmap i) < unat (size_ix i) + 12)"
      using full iff by simp
    show "err = Some EOF \<or> err = None"
    proof (cases "length (mmap i) < unat (size_ix i) + 12")
      case True
      then show ?thesis using full iff by simp
    next
      case False
      then have "unat (size_ix i) + 12 \<le> length (mmap i)" by simp
      then show ?thesis using index_Write_ok [of i off pos] b assms by simp
    qed
  }
qed

theorem index_Write_IndexFull_witness:
  "fst (index_Write 1 20 ex_index) = None
   \<and> unat (size_ix (snd (index_Write 1 20 ex_index))) = 24
   \<and> take 12 (drop 12 (mmap (snd (index_Write 1 20 ex_index)))) = PutUint32 1 @ PutUint64 20
   \<and> take 12 (mmap (snd (index_Write 1 20 ex_index))) = PutUint32 0 @ PutUint64 0"
proof -
  have 1: "unat (size_ix ex_index) + 12 < 2 ^ 64 \<and> length (mmap ex_index) < 2 ^ 64"
    by (simp add: ex_index_def)
  have 3: "index_Write 1 20 ex_index
     = (fst (index_Write 1 20 ex_index), snd (index_Write 1 20 ex_index))" by simp
  have nf: "\<not> length (mmap ex_index) < unat (size_ix ex_index) + 12"
    by (simp add: ex_index_def)
  have sz: "unat (size_ix ex_index) = 12" by (simp add: ex_index_def)
  have pre: "take 12 (mmap ex_index) = PutUint32 0 @ PutUint64 0" by (simp add: ex_index_def)
  show ?thesis
    using index_Write_IndexFull [OF 3] 1 nf by (auto simp add: sz pre)
qed

text \<open>
  Claim C7. On an index whose \<open>size\<close> is 0, \<open>Read\<close> returns the not-found error (\<open>io.EOF\<close>)
  for every argument, 0 and -1 included, and so never an entry.
\<close>

theorem index_Read_empty: "index_Read (i\<lparr>size_ix := 0\<rparr>) inp = Inl EOF"
  by (simp add: index_Read_def)

text \<open>
  Claim C8. On an index holding \<open>K \<ge> 1\<close> entries (\<open>size = 12 * K\<close>), \<open>Read(-1)\<close> returns what
  \<open>Read(K - 1)\<close> returns.
\<close>

theorem index_Read_last:
  assumes "unat (size_ix i) = 12 * K" and "1 \<le> K"
  shows "index_Read i (- 1) = index_Read i (of_nat (K - 1))"
  using last_entry_number [OF assms] by (simp add: index_Read_entry)

theorem index_Read_last_witness:
  "index_Read ex_index (- 1) = index_Read ex_index 0"
proof -
  have 1: "unat (size_ix ex_index) = 12 * 1" by (simp add: ex_index_def)
  show ?thesis using index_Read_last [OF 1] by simp
qed

text \<open>
  Claim C10. \<open>Read\<close> keeps the low 32 bits of its argument: on an index with \<open>K \<ge> 1\<close>
  entries, every non-negative \<open>in\<close> with \<open>in mod 2^32 < K\<close> is answered from entry number
  \<open>in mod 2^32\<close>, whether or not \<open>in < K\<close>; the call succeeds and returns that entry
  whenever the entries lie inside the mapped region.
\<close>

theorem index_Read_truncates:
  assumes "unat (size_ix i) = 12 * K" and "1 \<le> K"
    and "0 \<le> sint inp" and "nat (sint inp) mod 2 ^ 32 < K"
  shows "index_Read i inp
           = (case entry_at (mmap i) (nat (sint inp) mod 2 ^ 32) of
                None \<Rightarrow> Inl Panic | Some e \<Rightarrow> Inr e)
       \<and> (12 * K \<le> length (mmap i) \<longrightarrow>
            (\<exists>e. index_Read i inp = Inr e
                \<and> entry_at (mmap i) (nat (sint inp) mod 2 ^ 32) = Some e))"
proof -
  let ?k = "nat (sint inp) mod 2 ^ 32"
  have u: "nat (sint inp) = unat inp" using assms(3) by (rule nonneg_sint_unat)
  have ne: "inp \<noteq> - 1" using assms(3) by auto
  have out: "unat (ucast inp :: 32 word) = ?k"
    by (simp add: u unsigned_ucast_eq take_bit_eq_mod)
  have nz: "size_ix i \<noteq> 0" using assms(1,2) by auto
  have r: "index_Read i inp = (case entry_at (mmap i) ?k of None \<Rightarrow> Inl Panic | Some e \<Rightarrow> Inr e)"
    using ne nz out assms(1,4) by (simp add: index_Read_entry)
  have "\<exists>e. index_Read i inp = Inr e \<and> entry_at (mmap i) ?k = Some e"
    if cap: "12 * K \<le> length (mmap i)"
  proof -
    obtain e where e: "entry_at (mmap i) ?k = Some e"
      using entry_at_Some [of ?k "mmap i"] cap assms(4) by auto
    then show ?thesis using r by simp
  qed
  then show ?thesis using r by blast
qed

theorem index_Read_truncates_witness:
  "index_Read ex_index 4294967296 = Inr (0, 0) \<and> index_Read ex_index 1 = Inl EOF"
proof -
  have 1: "unat (size_ix ex_index) = 12 * 1" by (simp add: ex_index_def)
  have 3: "12 * 1 \<le> length (mmap ex_index)" by (simp add: ex_index_def)
  have 4: "0 \<le> sint (4294967296 :: 64 word)" by simp
  have 5: "nat (sint (4294967296 :: 64 word)) mod 2 ^ 32 < 1" by simp
  have e: "entry_at (mmap ex_index) 0 = Some (0, 0)"
    using Uint32_PutUint32 [of 0 "[]"] Uint64_PutUint64 [of 0 "[]"]
    by (simp add: ex_index_def entry_at_def slice_def)
  have "index_Read ex_index 1 = Inl EOF"
    by (simp add: index_Read_entry ex_index_def)
  then show ?thesis
    using index_Read_truncates [OF 1 _ 4 5] 3 5 e by auto
qed

section \<open>Properties of the codec\<close>

lemma unvarint_varint: "unvarint (varint n @ r) = Some (n, r)"
proof (induction n rule: varint.induct)
  case (1 n)
  show ?case
  proof (cases "n < 128")
    case True
    then have "unat (of_nat n :: byte) = n" by (simp add: unat_of_nat)
    moreover have "(of_nat n :: byte) < 128" using True by (simp add: word_less_nat_alt unat_of_nat)
    ultimately show ?thesis using True by (subst varint.simps) simp
  next
    case False
    define b :: byte where "b = of_nat (128 + n mod 128)"
    have m: "128 + n mod 128 < 256" by simp
    have u: "unat b = 128 + n mod 128"
      unfolding b_def using m by (simp only: unat_of_nat) simp
    have ge: "\<not> b < 128"
      using u by (simp add: word_less_nat_alt)
    have v: "varint n = b # varint (n div 128)"
      using False by (subst varint.simps) (simp add: b_def)
    show ?thesis
      using False 1 u ge by (simp add: v)
  qed
qed

lemma wire_ok: "proto_ok wire"
proof -
  have "wire_Unmarshal p = Inr r" if "wire_Marshal r = Inr p" for r p
  proof -
    let ?off = "if Offset r = 0 then [] else 16 # varint (unat (Offset r))"
    have p: "p = (if Value r = [] then [] else 10 # varint (length (Value r)) @ Value r) @ ?off"
      using that by (simp add: wire_Marshal_def Let_def split: if_splits)
    have tail: "(case ?off of
            [] \<Rightarrow> Inr \<lparr>Value = v, Offset = 0\<rparr>
          | t # r \<Rightarrow>
             if t = 16 then
               (case unvarint r of
                  Some (x, []) \<Rightarrow> Inr \<lparr>Value = v, Offset = of_nat x\<rparr>
                | _ \<Rightarrow> Inl ErrUnmarshal)
             else Inl ErrUnmarshal) = Inr \<lparr>Value = v, Offset = Offset r\<rparr>" for v
      using unvarint_varint [of "unat (Offset r)" "[]"] by simp
    show ?thesis
    proof (cases "Value r = []")
      case True
      have "wire_Unmarshal ?off = Inr \<lparr>Value = [], Offset = Offset r\<rparr>"
        using unvarint_varint [of "unat (Offset r)" "[]"] by (simp add: wire_Unmarshal_def)
      then show ?thesis using True p by simp
    next
      case False
      have "wire_Unmarshal (10 # varint (length (Value r)) @ Value r @ ?off)
          = Inr \<lparr>Value = Value r, Offset = Offset r\<rparr>"
        unfolding wire_Unmarshal_def
        using tail [of "Value r"] by (simp add: unvarint_varint)
      then show ?thesis using False p by simp
    qed
  qed
  then show ?thesis by (simp add: proto_ok_def wire_def)
qed

lemma varint_length: "n < 128 ^ k \<Longrightarrow> 0 < k \<Longrightarrow> length (varint n) \<le> k"
proof (induction k arbitrary: n)
  case 0
  then show ?case by simp
next
  case (Suc k)
  show ?case
  proof (cases "n < 128")
    case True
    then show ?thesis by (subst varint.simps) simp
  next
    case False
    have d: "n div 128 < 128 ^ k" using Suc.prems(1) by (simp add: less_mult_imp_div_less mult.commute)
    have "0 < k" using False Suc.prems(1) by (cases k) simp_all
    then have "length (varint (n div 128)) \<le> k" using Suc.IH [OF d] by simp
    then show ?thesis using False by (subst varint.simps) simp
  qed
qed

lemma varint_length64: "length (varint (unat (w :: 64 word))) \<le> 10"
proof -
  have "unat w < 2 ^ 64" using unsigned_less [of w, where 'a=nat] by simp
  then have "unat w < 128 ^ 10" by simp
  then show ?thesis by (intro varint_length) simp_all
qed

lemma wire_Marshal_small:
  assumes "length (Value r) = 1"
  shows "\<exists>p. wire_Marshal r = Inr p \<and> length p \<le> 14"
proof -
  have v: "varint 1 = [1]" by (subst varint.simps) simp
  have n: "Value r \<noteq> []" using assms by auto
  show ?thesis
    using assms n v varint_length64 [of "Offset r"]
    by (simp add: wire_Marshal_def Let_def)
qed

section \<open>Properties of the buffered writer and the store\<close>

lemma File_Write_fits:
  "length b \<le> room f \<Longrightarrow>
     File_Write b f = ((length b, None), f\<lparr>content := content f @ b, room := room f - length b\<rparr>)"
  by (simp add: File_Write_def)

lemma File_Write_short:
  "\<not> length b \<le> room f \<Longrightarrow>
     File_Write b f = ((room f, Some ErrNoSpace), f\<lparr>content := content f @ take (room f) b, room := 0\<rparr>)"
  by (simp add: File_Write_def)

lemma Writer_Flush_ok:
  assumes "werr w = None" and "length (wbuf w) \<le> room f"
  shows "Writer_Flush w f =
     (None, w\<lparr>wbuf := []\<rparr>, f\<lparr>content := content f @ wbuf w, room := room f - length (wbuf w)\<rparr>)"
proof (cases "wbuf w = []")
  case True
  then have "w\<lparr>wbuf := []\<rparr> = w" by (metis Writer.surjective Writer.update_convs(1))
  then show ?thesis using assms True by (simp add: Writer_Flush_def Buffered_def)
next
  case False
  then show ?thesis
    using assms by (simp add: Writer_Flush_def Buffered_def File_Write_fits)
qed

lemma Writer_Flush_fails:
  assumes "werr w = None" and "\<not> length (wbuf w) \<le> room f" and "Writer_Flush w f = (e, w', f')"
  shows "werr w' \<noteq> None"
  using assms by (auto simp: Writer_Flush_def Buffered_def File_Write_short split: if_splits)

lemma Writer_Write_loop_stop:
  "\<not> (Available w < length p \<and> werr w = None) \<Longrightarrow> Writer_Write_loop p nn w f = ((p, nn), w, f)"
  by (subst Writer_Write_loop.simps) auto

lemma Writer_Write_loop_props:
  "Writer_Write_loop p nn w f = ((p', nn'), w', f') \<Longrightarrow> werr w = None \<Longrightarrow>
     (werr w' = None \<longrightarrow>
        length p' \<le> Available w' \<and> nn' + length p' = nn + length p
      \<and> content f' @ wbuf w' @ p' = content f @ wbuf w @ p
      \<and> unlinked f' = unlinked f
      \<and> room f' + length (content f') = room f + length (content f))
   \<and> (length (wbuf w) + length p \<le> room f \<longrightarrow> werr w' = None)"
proof (induction p nn w f arbitrary: p' nn' w' f' rule: Writer_Write_loop.induct)
  case (1 p nn w f)
  note res = "1.prems"(1) and ok = "1.prems"(2)
  show ?case
  proof (cases "Available w < length p")
    case False
    then have "Writer_Write_loop p nn w f = ((p, nn), w, f)"
      by (simp add: Writer_Write_loop_stop)
    with res ok False show ?thesis by auto
  next
    case big: True
    show ?thesis
    proof (cases "Buffered w = 0")
      case empty: True
      show ?thesis
      proof (cases "length p \<le> room f")
        case True
        let ?f1 = "f\<lparr>content := content f @ p, room := room f - length p\<rparr>"
        have fw: "File_Write p f = ((length p, None), ?f1)" using True by (rule File_Write_fits)
        have step: "Writer_Write_loop p nn w f
            = Writer_Write_loop (drop (length p) p) (nn + length p) (w\<lparr>werr := None\<rparr>) ?f1"
          using big ok empty fw by (subst Writer_Write_loop.simps) simp
        have "Writer_Write_loop [] (nn + length p) (w\<lparr>werr := None\<rparr>) ?f1
            = (([], nn + length p), w\<lparr>werr := None\<rparr>, ?f1)"
          by (simp add: Writer_Write_loop_stop)
        with step res have "p' = []" "nn' = nn + length p" "w' = w\<lparr>werr := None\<rparr>" "f' = ?f1"
          by simp_all
        then show ?thesis using ok empty True by (simp add: Buffered_def)
      next
        case False
        let ?f1 = "f\<lparr>content := content f @ take (room f) p, room := 0\<rparr>"
        let ?w1 = "w\<lparr>werr := Some ErrNoSpace\<rparr>"
        have fw: "File_Write p f = ((room f, Some ErrNoSpace), ?f1)"
          using False by (rule File_Write_short)
        have step: "Writer_Write_loop p nn w f
            = Writer_Write_loop (drop (room f) p) (nn + room f) ?w1 ?f1"
          using big ok empty fw by (subst Writer_Write_loop.simps) simp
        have "Writer_Write_loop (drop (room f) p) (nn + room f) ?w1 ?f1
            = ((drop (room f) p, nn + room f), ?w1, ?f1)"
          by (simp add: Writer_Write_loop_stop)
        with step res have "w' = ?w1" by simp
        then show ?thesis using False by simp
      qed
    next
      case nonempty: False
      define n where "n = min (Available w) (length p)"
      define w1 where "w1 = w\<lparr>wbuf := wbuf w @ take n p\<rparr>"
      have n: "n = Available w" using big by (simp add: n_def)
      obtain e w2 f2 where fl: "Writer_Flush w1 f = (e, w2, f2)" by (metis prod_cases3)
      have step: "Writer_Write_loop p nn w f = Writer_Write_loop (drop n p) (nn + n) w2 f2"
        using big ok nonempty fl
        by (subst Writer_Write_loop.simps) (simp add: n_def [symmetric] w1_def [symmetric])
      have w1ok: "werr w1 = None" using ok by (simp add: w1_def)
      have len1: "length (wbuf w1) = length (wbuf w) + n" using big by (simp add: w1_def n)
      show ?thesis
      proof (cases "length (wbuf w1) \<le> room f")
        case True
        have fl': "w2 = w1\<lparr>wbuf := []\<rparr>"
            "f2 = f\<lparr>content := content f @ wbuf w1, room := room f - length (wbuf w1)\<rparr>"
          using Writer_Flush_ok [OF w1ok True] fl by simp_all
        have w2ok: "werr w2 = None" using w1ok fl' by simp
        have IH: "(werr w' = None \<longrightarrow>
            length p' \<le> Available w' \<and> nn' + length p' = nn + n + length (drop n p)
          \<and> content f' @ wbuf w' @ p' = content f2 @ wbuf w2 @ drop n p
          \<and> unlinked f' = unlinked f2
          \<and> room f' + length (content f') = room f2 + length (content f2))
          \<and> (length (wbuf w2) + length (drop n p) \<le> room f2 \<longrightarrow> werr w' = None)"
          using "1.IH"(2) [of n e "(w2, f2)" w2 f2 p' nn' w' f']
            big ok nonempty fl step res w2ok n_def
          by (simp add: w1_def)
        have c2: "content f2 @ wbuf w2 @ drop n p = content f @ wbuf w @ p"
          using fl' by (simp add: w1_def)
        have r2: "room f2 + length (content f2) = room f + length (content f)"
          using fl' True by simp
        have l2: "length (wbuf w) + length p \<le> room f
            \<Longrightarrow> length (wbuf w2) + length (drop n p) \<le> room f2"
          using fl' len1 big n by simp
        show ?thesis using IH c2 r2 l2 fl' big n by auto
      next
        case False
        have "werr w2 \<noteq> None" using Writer_Flush_fails [OF w1ok False fl] .
        then have "Writer_Write_loop (drop n p) (nn + n) w2 f2 = ((drop n p, nn + n), w2, f2)"
          by (simp add: Writer_Write_loop_stop)
        with step res have "w' = w2" by simp
        then show ?thesis using \<open>werr w2 \<noteq> None\<close> False len1 big n by auto
      qed
    qed
  qed
qed

lemma Writer_Write_success:
  assumes "Writer_Write p w f = ((n, None), w', f')"
  shows "n = length p \<and> werr w = None \<and> werr w' = None
       \<and> content f' @ wbuf w' = content f @ wbuf w @ p
       \<and> unlinked f' = unlinked f
       \<and> room f' + length (content f') = room f + length (content f)"
proof -
  obtain p1 nn1 w1 f1 where l: "Writer_Write_loop p 0 w f = ((p1, nn1), w1, f1)"
    by (metis prod.exhaust)
  have w1: "werr w1 = None"
    using assms l by (auto simp: Writer_Write_def Let_def split: option.splits)
  have res: "n = nn1 + min (Available w1) (length p1)"
      "w' = w1\<lparr>wbuf := wbuf w1 @ take (min (Available w1) (length p1)) p1\<rparr>" "f' = f1"
    using assms l w1 by (simp_all add: Writer_Write_def Let_def)
  have w: "werr w = None"
  proof (rule ccontr)
    assume "werr w \<noteq> None"
    then have "Writer_Write_loop p 0 w f = ((p, 0), w, f)" by (simp add: Writer_Write_loop_stop)
    with l have "w1 = w" by simp
    with w1 \<open>werr w \<noteq> None\<close> show False by simp
  qed
  have pr: "length p1 \<le> Available w1" "nn1 + length p1 = length p"
      "content f1 @ wbuf w1 @ p1 = content f @ wbuf w @ p" "unlinked f1 = unlinked f"
      "room f1 + length (content f1) = room f + length (content f)"
    using Writer_Write_loop_props [OF l w] w1 by simp_all
  have m: "min (Available w1) (length p1) = length p1" using pr(1) by simp
  show ?thesis using res pr w w1 by (simp add: m)
qed

lemma Writer_Write_ok:
  assumes "werr w = None" and "length (wbuf w) + length p \<le> room f"
  shows "\<exists>w' f'. Writer_Write p w f = ((length p, None), w', f') \<and> werr w' = None
       \<and> content f' @ wbuf w' = content f @ wbuf w @ p
       \<and> unlinked f' = unlinked f
       \<and> room f' + length (content f') = room f + length (content f)"
proof -
  obtain p1 nn1 w1 f1 where l: "Writer_Write_loop p 0 w f = ((p1, nn1), w1, f1)"
    by (metis prod.exhaust)
  have w1: "werr w1 = None"
    using Writer_Write_loop_props [OF l assms(1)] assms(2) by simp
  obtain n w' f' where r: "Writer_Write p w f = ((n, None), w', f')"
    using l w1 by (simp add: Writer_Write_def Let_def)
  show ?thesis using Writer_Write_success [OF r] r by simp
qed

lemma store_Append_success:
  assumes "store_Append p s = (Inr (n, pos), s')"
  shows "n = 8 + of_nat (length p) \<and> pos = size_st s
       \<and> size_st s' = size_st s + 8 + of_nat (length p)
       \<and> logical s' = logical s @ PutUint64 (of_nat (length p)) @ p
       \<and> werr (buf s) = None \<and> werr (buf s') = None
       \<and> unlinked (File s') = unlinked (File s)
       \<and> room (File s') + length (content (File s')) = room (File s) + length (content (File s))"
proof -
  obtain e1 w1 f1 where b: "binary_Write (buf s) (File s) (of_nat (length p)) = (e1, w1, f1)"
    by (metis prod_cases3)
  have e1: "e1 = None" using assms b by (auto simp: store_Append_def Let_def split: option.splits)
  obtain n1 where b': "Writer_Write (PutUint64 (of_nat (length p))) (buf s) (File s) = ((n1, None), w1, f1)"
    using b e1 by (auto simp: binary_Write_def split: prod.splits)
  obtain k e2 w2 f2 where c: "Writer_Write p w1 f1 = ((k, e2), w2, f2)"
    by (metis prod.exhaust)
  have e2: "e2 = None" using assms b e1 c by (auto simp: store_Append_def Let_def split: option.splits)
  have res: "n = of_nat (k + 8) \<and> pos = size_st s
      \<and> s' = s\<lparr>File := f2, buf := w2, size_st := size_st s + of_nat (k + 8)\<rparr>"
    using assms b e1 c e2 by (auto simp add: store_Append_def Let_def)
  note A = Writer_Write_success [OF b']
  note B = Writer_Write_success [OF c [unfolded e2]]
  show ?thesis using res A B by (simp add: logical_def)
qed

lemma store_Append_ok:
  assumes "werr (buf s) = None" and "length (wbuf (buf s)) \<le> room (File s)"
    and "8 + length p \<le> spare s"
  shows "\<exists>s'. store_Append p s = (Inr (8 + of_nat (length p), size_st s), s')
       \<and> werr (buf s') = None \<and> length (wbuf (buf s')) \<le> room (File s')
       \<and> spare s' = spare s - (8 + length p)
       \<and> logical s' = logical s @ frame p
       \<and> size_st s' = size_st s + 8 + of_nat (length p)"
proof -
  have r1: "length (wbuf (buf s)) + length (PutUint64 (of_nat (length p))) \<le> room (File s)"
    using assms(2,3) by (simp add: spare_def)
  obtain w1 f1 where b: "Writer_Write (PutUint64 (of_nat (length p))) (buf s) (File s) = ((8, None), w1, f1)"
      and w1: "werr w1 = None"
      and c1: "content f1 @ wbuf w1 = content (File s) @ wbuf (buf s) @ PutUint64 (of_nat (length p))"
      and m1: "room f1 + length (content f1) = room (File s) + length (content (File s))"
    using Writer_Write_ok [OF assms(1) r1] by auto
  have l1: "length (content f1) + length (wbuf w1) = length (content (File s)) + length (wbuf (buf s)) + 8"
    using arg_cong [OF c1, of length] by simp
  have r2: "length (wbuf w1) + length p \<le> room f1"
    using assms(2,3) m1 l1 by (simp add: spare_def)
  obtain w2 f2 where c: "Writer_Write p w1 f1 = ((length p, None), w2, f2)"
      and w2: "werr w2 = None"
      and c2: "content f2 @ wbuf w2 = content f1 @ wbuf w1 @ p"
      and m2: "room f2 + length (content f2) = room f1 + length (content f1)"
    using Writer_Write_ok [OF w1 r2] by auto
  have l2: "length (content f2) + length (wbuf w2) = length (content f1) + length (wbuf w1) + length p"
    using arg_cong [OF c2, of length] by simp
  let ?s' = "s\<lparr>File := f2, buf := w2, size_st := size_st s + of_nat (length p + 8)\<rparr>"
  have "store_Append p s = (Inr (of_nat (length p + 8), size_st s), ?s')"
    using b c by (simp add: store_Append_def binary_Write_def Let_def)
  moreover have "logical ?s' = logical s @ frame p"
    using c1 c2 by (simp add: logical_def frame_def)
  moreover have "length (wbuf (buf ?s')) \<le> room (File ?s')"
    using assms(2,3) m1 m2 l1 l2 by (simp add: spare_def)
  moreover have "spare ?s' = spare s - (8 + length p)"
    using assms(2,3) m1 m2 l1 l2 by (simp add: spare_def)
  ultimately show ?thesis using w2 by (simp add: add.commute)
qed

lemma length_frame [simp]: "length (frame p) = 8 + length p"
  by (simp add: frame_def)

lemma store_Read_frame:
  assumes "werr (buf s) = None" and "length (wbuf (buf s)) \<le> room (File s)"
    and "logical s = pre @ frame p @ post" and "length (logical s) < 2 ^ 63"
  shows "store_Read (of_nat (length pre)) s =
     (Inr p, s\<lparr>File := (File s)\<lparr>content := logical s, room := room (File s) - length (wbuf (buf s))\<rparr>,
              buf := (buf s)\<lparr>wbuf := []\<rparr>\<rparr>)"
proof -
  let ?f1 = "(File s)\<lparr>content := logical s, room := room (File s) - length (wbuf (buf s))\<rparr>"
  let ?w1 = "(buf s)\<lparr>wbuf := []\<rparr>"
  have fl: "Writer_Flush (buf s) (File s) = (None, ?w1, ?f1)"
    using Writer_Flush_ok [OF assms(1,2)] by (simp add: logical_def)
  have len: "length pre + 8 + length p + length post = length (logical s)"
    using assms(3) by simp
  have b1: "length pre < 2 ^ 63" and b2: "length p < 2 ^ 63" and b3: "length pre + 8 < 2 ^ 63"
    using len assms(4) by simp_all
  note P = sint_of_nat63 [OF b1]
  note L = sint_of_nat63 [OF b2]
  have pos8: "(of_nat (length pre) :: 64 word) + 8 = of_nat (length pre + 8)" by simp
  note Q = sint_of_nat63 [OF b3]
  have r1: "File_ReadAt ?f1 8 (of_nat (length pre)) = Inr (PutUint64 (of_nat (length p)))"
    using P len assms(3) by (simp add: File_ReadAt_def frame_def)
  have u: "Uint64 (PutUint64 (of_nat (length p))) = Some (of_nat (length p))"
    using Uint64_PutUint64 [of _ "[]"] by simp
  have r2: "File_ReadAt ?f1 (length p) (of_nat (length pre + 8)) = Inr p"
    using Q len assms(3) by (auto simp add: File_ReadAt_def frame_def)
  show ?thesis
    using fl r1 u L r2 by (simp add: store_Read_def Let_def pos8 del: of_nat_add)
qed

lemma frames_split:
  assumes "k < length ps"
  shows "concat (map frame ps)
     = concat (map frame (take k ps)) @ frame (ps ! k) @ concat (map frame (drop (Suc k) ps))"
proof -
  have "ps = take k ps @ ps ! k # drop (Suc k) ps" using assms by (rule id_take_nth_drop)
  then have "concat (map frame ps) = concat (map frame (take k ps @ ps ! k # drop (Suc k) ps))"
    by simp
  then show ?thesis by simp
qed

text \<open>
  Claim C6. A successful \<open>store.Append(p)\<close> on a store of size \<open>S\<close> returns
  \<open>8 + len(p)\<close> bytes written and the position \<open>S\<close>, leaves the size at \<open>S + 8 + len(p)\<close>
  (all in \<open>uint64\<close> arithmetic), and the bytes added to the store are the 8-byte big-endian
  length of \<open>p\<close> followed by \<open>p\<close>.
\<close>

theorem store_Append_layout:
  assumes "store_Append p s = (Inr (n, pos), s')"
  shows "n = 8 + of_nat (length p) \<and> pos = size_st s
       \<and> size_st s' = size_st s + 8 + of_nat (length p)
       \<and> logical s' = logical s @ PutUint64 (of_nat (length p)) @ p
       \<and> unat n = (8 + length p) mod 2 ^ 64
       \<and> unat (size_st s') = (unat (size_st s) + 8 + length p) mod 2 ^ 64"
proof -
  note A = store_Append_success [OF assms]
  have "unat (8 + of_nat (length p) :: 64 word) = (8 + length p) mod 2 ^ 64"
    by (simp add: unat_word_ariths unat_of_nat mod_simps)
  moreover have "unat (size_st s + 8 + of_nat (length p)) = (unat (size_st s) + 8 + length p) mod 2 ^ 64"
    by (simp add: unat_word_ariths unat_of_nat mod_simps)
  ultimately show ?thesis using A by simp
qed

theorem store_Append_layout_witness:
  "\<exists>s'. store_Append [97, 98] ex_store = (Inr (10, 0), s')
      \<and> size_st s' = 10 \<and> logical s' = PutUint64 2 @ [97, 98]"
proof -
  have 1: "werr (buf ex_store) = None" by (simp add: ex_store_def)
  have 2: "length (wbuf (buf ex_store)) \<le> room (File ex_store)" by (simp add: ex_store_def)
  have 3: "8 + length [97, 98 :: byte] \<le> spare ex_store"
    by (simp add: ex_store_def spare_def empty_file_def)
  obtain s' where a: "store_Append [97, 98] ex_store = (Inr (8 + of_nat (length [97, 98 :: byte]), size_st ex_store), s')"
    using store_Append_ok [OF 1 2 3] by blast
  have "size_st s' = 10 \<and> logical s' = PutUint64 2 @ [97, 98]"
    using store_Append_layout [OF a] by (simp add: ex_store_def logical_def empty_file_def)
  moreover have "store_Append [97, 98] ex_store = (Inr (10, 0), s')"
    using a by (simp add: ex_store_def)
  ultimately show ?thesis by blast
qed

section \<open>Properties of the segment\<close>

text \<open>
  Claim C4. A successful \<open>Append\<close> returns the value \<open>nextOffset\<close> had before the call and
  leaves \<open>nextOffset\<close> one higher (in \<open>uint64\<close> arithmetic); a failed call, whatever failed
  (marshalling, the store, the index), leaves \<open>nextOffset\<close> as it was.
\<close>

theorem segment_Append_nextOffset:
  "(case segment_Append pb r s of
      (Inr off, s') \<Rightarrow> off = nextOffset s \<and> nextOffset s' = nextOffset s + 1
    | (Inl e, s') \<Rightarrow> nextOffset s' = nextOffset s)"
  by (simp add: segment_Append_def Let_def split: sum.splits prod.splits option.splits)

lemma index_Read_holds:
  assumes "seg_holds s ps" and "k < length ps"
  shows "index_Read (index s) (of_nat k)
     = Inr (of_nat k, of_nat (length (concat (map frame (take (k mod 2 ^ 32) ps)))))"
proof -
  let ?j = "k mod 2 ^ 32"
  have j: "?j < length ps" using assms(2) by (meson le_less_trans mod_less_eq_dividend)
  have sz: "unat (size_ix (index s)) = 12 * length ps"
    and en: "entry_at (mmap (index s)) ?j = Some (of_nat ?j, of_nat (length (concat (map frame (take ?j ps)))))"
    using assms(1) j by (simp_all add: seg_holds_def)
  have "12 * length ps < 2 ^ 64" using sz unsigned_less [of "size_ix (index s)", where 'a=nat] by simp
  then have k64: "k < 2 ^ 64 - 1" using assms(2) by simp
  have nz: "size_ix (index s) \<noteq> 0" using sz assms(2) by auto
  have le: "\<not> 12 * length ps < 12 * ?j + 12" using j by simp
  show ?thesis
    using nz sz en le of_nat_ne_minus1 [OF k64] unat_ucast_of_nat_32 [of k] of_nat_mod_32 [of k]
    by (simp add: index_Read_entry)
qed

lemma index_Read_minus1_holds:
  assumes "seg_holds s ps" and "ps \<noteq> []"
  shows "index_Read (index s) (- 1) = index_Read (index s) (of_nat (length ps - 1))"
proof -
  have sz: "unat (size_ix (index s)) = 12 * length ps"
    using assms(1) by (simp add: seg_holds_def)
  have K: "1 \<le> length ps" using assms(2) by (cases ps) simp_all
  show ?thesis using last_entry_number [OF sz K] by (simp add: index_Read_entry)
qed

text \<open>
  Reading offset \<open>baseOffset + k\<close> returns the record stored under entry number
  \<open>k mod 2^32\<close>: the index keeps 32 bits of the relative offset.
\<close>

lemma segment_Read_holds:
  assumes "seg_holds s ps" and "k < length ps"
  shows "\<exists>s'. segment_Read pb (baseOffset s + of_nat k) s = (Unmarshal pb (ps ! (k mod 2 ^ 32)), s')
       \<and> seg_holds s' ps \<and> baseOffset s' = baseOffset s
       \<and> spare (store s') = spare (store s)
       \<and> length (mmap (index s')) = length (mmap (index s))"
proof -
  let ?st = "store s"
  let ?j = "k mod 2 ^ 32"
  have j: "?j < length ps" using assms(2) by (meson le_less_trans mod_less_eq_dividend)
  have h: "werr (buf ?st) = None" "length (wbuf (buf ?st)) \<le> room (File ?st)"
      "logical ?st = concat (map frame ps)" "length (concat (map frame ps)) < 2 ^ 63"
    using assms(1) by (simp_all add: seg_holds_def)
  let ?pre = "concat (map frame (take ?j ps))"
  have sp: "logical ?st = ?pre @ frame (ps ! ?j) @ concat (map frame (drop (Suc ?j) ps))"
    using h(3) frames_split [OF j] by simp
  have ll: "length (logical ?st) < 2 ^ 63" using h(3,4) by simp
  let ?st' = "?st\<lparr>File := (File ?st)\<lparr>content := logical ?st, room := room (File ?st) - length (wbuf (buf ?st))\<rparr>,
              buf := (buf ?st)\<lparr>wbuf := []\<rparr>\<rparr>"
  have rd: "store_Read (of_nat (length ?pre)) ?st = (Inr (ps ! ?j), ?st')"
    using store_Read_frame [OF h(1,2) sp ll] .
  have ix: "index_Read (index s) (baseOffset s + of_nat k - baseOffset s)
      = Inr (of_nat k, of_nat (length ?pre))"
    using index_Read_holds [OF assms] by simp
  have res: "segment_Read pb (baseOffset s + of_nat k) s = (Unmarshal pb (ps ! ?j), s\<lparr>store := ?st'\<rparr>)"
    using ix rd by (simp add: segment_Read_def)
  have inv: "seg_holds (s\<lparr>store := ?st'\<rparr>) ps"
    using assms(1) by (simp add: seg_holds_def logical_def)
  have "spare ?st' = spare ?st" by (simp add: spare_def)
  then show ?thesis using res inv by simp
qed

lemma segment_Read_below_holds:
  assumes "seg_holds s ps" and "ps \<noteq> []"
  shows "\<exists>s'. segment_Read pb (baseOffset s - 1) s
      = (Unmarshal pb (ps ! ((length ps - 1) mod 2 ^ 32)), s')"
proof -
  let ?k = "length ps - 1"
  have k: "?k < length ps" using assms(2) by (cases ps) simp_all
  have "index_Read (index s) (baseOffset s - 1 - baseOffset s)
      = index_Read (index s) (baseOffset s + of_nat ?k - baseOffset s)"
    using index_Read_minus1_holds [OF assms] by simp
  then have "segment_Read pb (baseOffset s - 1) s = segment_Read pb (baseOffset s + of_nat ?k) s"
    by (simp add: segment_Read_def)
  then show ?thesis using segment_Read_holds [OF assms(1) k, of pb] by auto
qed

lemma segment_Append_holds:
  assumes "seg_holds s ps" and "Marshal pb (r\<lparr>Offset := nextOffset s\<rparr>) = Inr p"
    and "8 + length p \<le> spare (store s)"
    and "12 * length ps + 12 \<le> length (mmap (index s))"
    and "length (concat (map frame (ps @ [p]))) < 2 ^ 63"
  shows "\<exists>s'. segment_Append pb r s = (Inr (baseOffset s + of_nat (length ps)), s')
       \<and> seg_holds s' (ps @ [p]) \<and> baseOffset s' = baseOffset s
       \<and> spare (store s') = spare (store s) - (8 + length p)
       \<and> length (mmap (index s')) = length (mmap (index s))"
proof -
  let ?L = "length (concat (map frame ps))"
  let ?K = "length ps"
  have h: "werr (buf (store s)) = None" "length (wbuf (buf (store s))) \<le> room (File (store s))"
      "logical (store s) = concat (map frame ps)"
      "size_st (store s) = of_nat ?L"
      "unat (size_ix (index s)) = 12 * ?K"
      "length (mmap (index s)) < 2 ^ 63"
      "\<forall>k < ?K. entry_at (mmap (index s)) k
          = Some (of_nat k, of_nat (length (concat (map frame (take k ps)))))"
      "nextOffset s = baseOffset s + of_nat ?K"
    using assms(1) by (simp_all add: seg_holds_def)
  obtain st where st: "store_Append p (store s) = (Inr (8 + of_nat (length p), size_st (store s)), st)"
      and st1: "werr (buf st) = None" "length (wbuf (buf st)) \<le> room (File st)"
      and st2: "spare st = spare (store s) - (8 + length p)"
      and st3: "logical st = logical (store s) @ frame p"
      and st4: "size_st st = size_st (store s) + 8 + of_nat (length p)"
    using store_Append_ok [OF h(1,2) assms(3)] by auto
  have cap: "unat (size_ix (index s)) + 12 \<le> length (mmap (index s))"
    using h(5) assms(4) by simp
  have l64: "length (mmap (index s)) < 2 ^ 64" using h(6) by simp
  let ?off = "ucast (nextOffset s - baseOffset s) :: 32 word"
  let ?m = "take (12 * ?K) (mmap (index s)) @ PutUint32 ?off @ PutUint64 (of_nat ?L)
              @ drop (12 * ?K + 12) (mmap (index s))"
  let ?ix = "(index s)\<lparr>mmap := ?m, size_ix := size_ix (index s) + 12\<rparr>"
  have wr: "index_Write ?off (of_nat ?L) (index s) = (None, ?ix)"
    using index_Write_ok [OF cap l64, of ?off "of_nat ?L"] by (simp add: h(5))
  have off: "?off = of_nat ?K" by (simp add: h(8) ucast_of_nat_32)
  let ?s' = "s\<lparr>store := st, index := ?ix, nextOffset := nextOffset s + 1\<rparr>"
  have res: "segment_Append pb r s = (Inr (nextOffset s), ?s')"
    using assms(2) st wr by (simp add: segment_Append_def Let_def h(4))
  have sz': "unat (size_ix (index s) + 12) = 12 * ?K + 12"
    using unat_size_plus(2) [of "size_ix (index s)"] cap l64 h(5) by simp
  have le: "12 * ?K \<le> length (mmap (index s))" using assms(4) by simp
  have ent: "entry_at ?m k = Some (of_nat k, of_nat (length (concat (map frame (take k (ps @ [p]))))))"
    if "k < Suc ?K" for k
  proof (cases "k = ?K")
    case True
    then show ?thesis using entry_at_written [OF refl le, of ?off "of_nat ?L"] off by simp
  next
    case False
    then have k: "k < ?K" using that by simp
    then have "12 * k + 12 \<le> 12 * ?K" by simp
    then have "entry_at ?m k = entry_at (mmap (index s)) k" using le by (rule entry_at_kept)
    then show ?thesis using h(7) k by simp
  qed
  have inv: "seg_holds ?s' (ps @ [p])"
    unfolding seg_holds_def
    using st1 st3 st4 h(3,4,6,8) assms(4,5) sz' ent by (simp add: add.commute add.left_commute)
  show ?thesis using res inv st2 h(8) assms(4) by simp
qed

lemma newSegment_fresh:
  assumes "newSegment (Inr \<lparr>content = [], room = R, unlinked = False\<rparr>)
             (Inr \<lparr>content = [], room = R', unlinked = False\<rparr>) b c = Inr s"
  shows "seg_holds s [] \<and> baseOffset s = b \<and> spare (store s) = R
       \<and> length (mmap (index s)) = unat (MaxIndexBytes c)"
proof -
  let ?xf = "\<lparr>content = [], room = R', unlinked = False\<rparr>"
  let ?sf = "\<lparr>content = [], room = R, unlinked = False\<rparr>"
  have st: "newStore ?sf = Inr \<lparr>File = ?sf, buf = \<lparr>wbuf = [], werr = None\<rparr>, size_st = 0\<rparr>"
    by (simp add: newStore_def os_Stat_def)
  obtain ix where ix: "newIndex ?xf c = Inr ix"
    using assms st by (auto simp: newSegment_def split: sum.splits)
  have nneg: "\<not> sint (MaxIndexBytes c) < 0"
    using ix by (auto simp: newIndex_def os_Stat_def os_Truncate_def split: if_splits)
  have ixv: "mmap ix = replicate (unat (MaxIndexBytes c)) 0" "size_ix ix = 0"
    using ix nneg by (auto simp: newIndex_def os_Stat_def os_Truncate_def gommap_Map_def split: if_splits)
  have "unat (MaxIndexBytes c) = nat (sint (MaxIndexBytes c))"
    using nneg nonneg_sint_unat [of "MaxIndexBytes c"] by simp
  moreover have "sint (MaxIndexBytes c) < 2 ^ 63" using sint_less [of "MaxIndexBytes c"] by simp
  ultimately have m63: "unat (MaxIndexBytes c) < 2 ^ 63" using nneg by (simp add: nat_less_iff)
  have rd: "index_Read ix (- 1) = Inl EOF" using ixv by (simp add: index_Read_def)
  have s: "s = \<lparr>store = \<lparr>File = ?sf, buf = \<lparr>wbuf = [], werr = None\<rparr>, size_st = 0\<rparr>,
                 index = ix, baseOffset = b, nextOffset = b, config = c\<rparr>"
    using assms st ix rd by (simp add: newSegment_def)
  show ?thesis using ixv m63 by (simp add: s seg_holds_def logical_def spare_def)
qed

lemma stamped_payloads_nth:
  "stamped_payloads pb off rs = Some ps \<Longrightarrow>
     length ps = length rs
   \<and> (\<forall>k < length rs. Marshal pb ((rs ! k)\<lparr>Offset := off + of_nat k\<rparr>) = Inr (ps ! k))"
proof (induction rs arbitrary: off ps)
  case Nil
  then show ?case by simp
next
  case (Cons r rs)
  from Cons.prems obtain p ps' where p: "Marshal pb (r\<lparr>Offset := off\<rparr>) = Inr p"
      and ps': "stamped_payloads pb (off + 1) rs = Some ps'" and ps: "ps = p # ps'"
    by (auto split: sum.splits)
  note IH = Cons.IH [OF ps']
  show ?case
  proof (intro conjI allI impI)
    show "length ps = length (r # rs)" using IH ps by simp
  next
    fix k assume "k < length (r # rs)"
    then show "Marshal pb (((r # rs) ! k)\<lparr>Offset := off + of_nat k\<rparr>) = Inr (ps ! k)"
      using IH p ps by (cases k) (simp_all add: add.assoc)
  qed
qed

lemma append_all_holds:
  assumes "seg_holds s ps0" and "stamped_payloads pb (nextOffset s) rs = Some ps"
    and "length (concat (map frame ps)) \<le> spare (store s)"
    and "12 * (length ps0 + length rs) \<le> length (mmap (index s))"
    and "length (concat (map frame (ps0 @ ps))) < 2 ^ 63"
  shows "\<exists>s'. append_all pb rs s
          = (Inr (map (\<lambda>k. baseOffset s + of_nat (length ps0 + k)) [0..<length rs]), s')
       \<and> seg_holds s' (ps0 @ ps) \<and> baseOffset s' = baseOffset s
       \<and> spare (store s') = spare (store s) - length (concat (map frame ps))
       \<and> length (mmap (index s')) = length (mmap (index s))"
  using assms
proof (induction rs arbitrary: s ps0 ps)
  case Nil
  then show ?case by simp
next
  case (Cons r rs)
  from Cons.prems(2) obtain p ps' where p: "Marshal pb (r\<lparr>Offset := nextOffset s\<rparr>) = Inr p"
      and ps': "stamped_payloads pb (nextOffset s + 1) rs = Some ps'" and ps: "ps = p # ps'"
    by (auto split: sum.splits)
  have c1: "8 + length p \<le> spare (store s)" using Cons.prems(3) ps by simp
  have c2: "12 * length ps0 + 12 \<le> length (mmap (index s))" using Cons.prems(4) by simp
  have c3: "length (concat (map frame (ps0 @ [p]))) < 2 ^ 63" using Cons.prems(5) ps by simp
  obtain s1 where a: "segment_Append pb r s = (Inr (baseOffset s + of_nat (length ps0)), s1)"
      and h1: "seg_holds s1 (ps0 @ [p])" and b1: "baseOffset s1 = baseOffset s"
      and sp1: "spare (store s1) = spare (store s) - (8 + length p)"
      and m1: "length (mmap (index s1)) = length (mmap (index s))"
    using segment_Append_holds [OF Cons.prems(1) p c1 c2 c3] by auto
  have n1: "nextOffset s1 = nextOffset s + 1"
    using h1 Cons.prems(1) b1 by (simp add: seg_holds_def)
  have d2: "stamped_payloads pb (nextOffset s1) rs = Some ps'" using ps' n1 by simp
  have d3: "length (concat (map frame ps')) \<le> spare (store s1)"
    using Cons.prems(3) ps sp1 by simp
  have d4: "12 * (length (ps0 @ [p]) + length rs) \<le> length (mmap (index s1))"
    using Cons.prems(4) m1 by simp
  have d5: "length (concat (map frame ((ps0 @ [p]) @ ps'))) < 2 ^ 63"
    using Cons.prems(5) ps by simp
  obtain s2 where a2: "append_all pb rs s1
        = (Inr (map (\<lambda>k. baseOffset s1 + of_nat (length (ps0 @ [p]) + k)) [0..<length rs]), s2)"
      and h2: "seg_holds s2 ((ps0 @ [p]) @ ps')" and b2: "baseOffset s2 = baseOffset s1"
      and sp2: "spare (store s2) = spare (store s1) - length (concat (map frame ps'))"
      and m2: "length (mmap (index s2)) = length (mmap (index s1))"
    using Cons.IH [OF h1 d2 d3 d4 d5] by auto
  have l: "map (\<lambda>k. baseOffset s + of_nat (length ps0 + k)) [0..<length (r # rs)]
      = (baseOffset s + of_nat (length ps0))
        # map (\<lambda>k. baseOffset s1 + of_nat (length (ps0 @ [p]) + k)) [0..<length rs]"
    by (simp add: map_upt_Suc b1 del: upt_Suc)
  have sp: "spare (store s2) = spare (store s) - length (concat (map frame ps))"
    using sp1 sp2 ps by simp
  show ?case using a a2 h2 b2 b1 ps sp m1 m2 unfolding l by simp
qed

lemma read_all_holds:
  assumes "seg_holds s ps"
    and "\<forall>k \<in> set ks. k < length ps \<and> Unmarshal pb (ps ! (k mod 2 ^ 32)) = Inr (f k)"
  shows "\<exists>s'. read_all pb (map (\<lambda>k. baseOffset s + of_nat k) ks) s = (Inr (map f ks), s')
       \<and> seg_holds s' ps \<and> baseOffset s' = baseOffset s"
  using assms
proof (induction ks arbitrary: s)
  case Nil
  then show ?case by simp
next
  case (Cons k ks)
  have k: "k < length ps" and u: "Unmarshal pb (ps ! (k mod 2 ^ 32)) = Inr (f k)"
    using Cons.prems(2) by simp_all
  obtain s1 where r: "segment_Read pb (baseOffset s + of_nat k) s = (Inr (f k), s1)"
      and h1: "seg_holds s1 ps" and b1: "baseOffset s1 = baseOffset s"
    using segment_Read_holds [OF Cons.prems(1) k, of pb] u by auto
  have rest: "\<forall>k \<in> set ks. k < length ps \<and> Unmarshal pb (ps ! (k mod 2 ^ 32)) = Inr (f k)"
    using Cons.prems(2) by simp
  obtain s2 where r2: "read_all pb (map (\<lambda>k. baseOffset s1 + of_nat k) ks) s1 = (Inr (map f ks), s2)"
      and h2: "seg_holds s2 ps" and b2: "baseOffset s2 = baseOffset s1"
    using Cons.IH [OF h1 rest] by auto
  show ?case using r r2 h2 b2 b1 by simp
qed

text \<open>The state after appending to a fresh segment.\<close>

lemma appended_holds:
  assumes "newSegment (Inr \<lparr>content = [], room = R, unlinked = False\<rparr>)
             (Inr \<lparr>content = [], room = R', unlinked = False\<rparr>) b c = Inr s0"
    and "stamped_payloads pb b rs = Some ps"
    and "length (concat (map frame ps)) \<le> R" and "length (concat (map frame ps)) < 2 ^ 63"
    and "12 * length rs \<le> unat (MaxIndexBytes c)"
  shows "\<exists>s1. append_all pb rs s0 = (Inr (map (\<lambda>k. b + of_nat k) [0..<length rs]), s1)
       \<and> seg_holds s1 ps \<and> baseOffset s1 = b
       \<and> spare (store s1) = R - length (concat (map frame ps))
       \<and> length (mmap (index s1)) = unat (MaxIndexBytes c)"
proof -
  have f: "seg_holds s0 []" "baseOffset s0 = b" "spare (store s0) = R"
      "length (mmap (index s0)) = unat (MaxIndexBytes c)"
    using newSegment_fresh [OF assms(1)] by simp_all
  have n0: "nextOffset s0 = b" using f(1,2) by (simp add: seg_holds_def)
  show ?thesis
    using append_all_holds [of s0 "[]" pb rs ps] f n0 assms(2-5) by simp
qed

lemma unmarshal_stamped:
  assumes "proto_ok pb" and "stamped_payloads pb b rs = Some ps" and "k < length rs"
  shows "Unmarshal pb (ps ! k) = Inr ((rs ! k)\<lparr>Offset := b + of_nat k\<rparr>)"
  using assms stamped_payloads_nth [OF assms(2)] by (simp add: proto_ok_def)

lemma ex_fresh_new:
  "newSegment (Inr \<lparr>content = [], room = 1000, unlinked = False\<rparr>)
     (Inr \<lparr>content = [], room = 0, unlinked = False\<rparr>) 0 ex_config = Inr ex_fresh"
  by (simp add: newSegment_def newStore_def newIndex_def os_Stat_def os_Truncate_def
      gommap_Map_def index_Read_def ex_config_def ex_fresh_def empty_file_def)

lemma ex_stamped: "stamped_payloads wire 0 ex_records = Some ex_payloads"
  by (simp add: ex_records_def ex_payloads_def rec_of_def wire_def wire_Marshal_def Let_def
      varint.simps)

lemma ex_payloads_length: "length (concat (map frame ex_payloads)) = 40"
  by (simp add: ex_payloads_def)

lemma stamped_payloads_total:
  assumes "\<forall>r \<in> set rs. \<forall>off. \<exists>p. Marshal pb (r\<lparr>Offset := off\<rparr>) = Inr p \<and> length p \<le> M"
  shows "\<exists>ps. stamped_payloads pb off rs = Some ps \<and> (\<forall>p \<in> set ps. length p \<le> M)"
  using assms
proof (induction rs arbitrary: off)
  case Nil
  then show ?case by simp
next
  case (Cons r rs)
  have "\<exists>p. Marshal pb (r\<lparr>Offset := off\<rparr>) = Inr p \<and> length p \<le> M"
    using Cons.prems by simp
  then obtain p where p: "Marshal pb (r\<lparr>Offset := off\<rparr>) = Inr p" "length p \<le> M"
    by blast
  have "\<exists>ps. stamped_payloads pb (off + 1) rs = Some ps \<and> (\<forall>p \<in> set ps. length p \<le> M)"
    using Cons.IH [of "off + 1"] Cons.prems by simp
  then obtain ps where ps: "stamped_payloads pb (off + 1) rs = Some ps" "\<forall>p \<in> set ps. length p \<le> M"
    by blast
  show ?case using p ps by simp
qed

lemma frames_bound:
  "\<forall>p \<in> set ps. length p \<le> M \<Longrightarrow> length (concat (map frame ps)) \<le> (8 + M) * length ps"
  by (induction ps) auto

lemma length_ex_big: "length ex_big = 4294967297"
  by (simp add: ex_big_def)

lemma ex_big_fresh_new:
  "newSegment (Inr \<lparr>content = [], room = 1099511627776, unlinked = False\<rparr>)
     (Inr \<lparr>content = [], room = 0, unlinked = False\<rparr>) 0 ex_big_config = Inr ex_big_fresh"
  by (simp add: newSegment_def newStore_def newIndex_def os_Stat_def os_Truncate_def
      gommap_Map_def index_Read_def ex_big_config_def ex_big_fresh_def empty_file_def)

text \<open>The state after the appends, and what the records of \<open>ex_big\<close> are stored as.\<close>

lemma ex_big_holds:
  "\<exists>ps. stamped_payloads wire 0 ex_big = Some ps
      \<and> append_all wire ex_big ex_big_fresh
           = (Inr (map (\<lambda>k. 0 + of_nat k) [0..<length ex_big]), snd (append_all wire ex_big ex_big_fresh))
      \<and> seg_holds (snd (append_all wire ex_big ex_big_fresh)) ps
      \<and> baseOffset (snd (append_all wire ex_big ex_big_fresh)) = 0"
proof -
  have "\<forall>r \<in> set ex_big. \<forall>off. \<exists>p. Marshal wire (r\<lparr>Offset := off\<rparr>) = Inr p \<and> length p \<le> 14"
  proof (intro ballI allI)
    fix r off assume "r \<in> set ex_big"
    then have "length (Value (r\<lparr>Offset := off\<rparr>)) = 1"
      by (auto simp: ex_big_def rec_of_def)
    then show "\<exists>p. Marshal wire (r\<lparr>Offset := off\<rparr>) = Inr p \<and> length p \<le> 14"
      using wire_Marshal_small [of "r\<lparr>Offset := off\<rparr>"] by (simp add: wire_def)
  qed
  then obtain ps where ps: "stamped_payloads wire 0 ex_big = Some ps"
      and small: "\<forall>p \<in> set ps. length p \<le> 14"
    using stamped_payloads_total [of ex_big wire 14 0] by auto
  have len: "length ps = 4294967297"
    using stamped_payloads_nth [OF ps] by (simp add: length_ex_big)
  have tot: "length (concat (map frame ps)) \<le> 22 * 4294967297"
    using frames_bound [OF small] len by simp
  have 4: "length (concat (map frame ps)) \<le> 1099511627776" using tot by simp
  have 5: "length (concat (map frame ps)) < 2 ^ 63" using tot by simp
  have 6: "12 * length ex_big \<le> unat (MaxIndexBytes ex_big_config)"
    by (simp add: length_ex_big ex_big_config_def)
  show ?thesis
    using appended_holds [OF ex_big_fresh_new ps 4 5 6] ps by auto
qed

lemma ex_big_nth:
  "ex_big ! 0 = rec_of [97]" "ex_big ! 4294967296 = rec_of [98]" "last ex_big = rec_of [98]"
  by (simp_all add: ex_big_def nth_append)

text \<open>
  Claim C1 does not hold for every \<open>N\<close>. The index stores 32 bits of the relative offset
  and \<open>index.Read\<close> keeps 32 bits of its argument. After \<open>2^32 + 1\<close> appends to a fresh
  segment with room for all of them (\<open>ex_big\<close>: \<open>2^32\<close> records with payload \<open>a\<close>, then one
  with payload \<open>b\<close>), reading the returned offsets in order succeeds, but the last one,
  \<open>2^32\<close>, is answered from entry 0: the payload read is \<open>a\<close>, the payload appended \<open>b\<close>.
\<close>

theorem segment_round_trip_counterexample:
  "newSegment (Inr \<lparr>content = [], room = 1099511627776, unlinked = False\<rparr>)
     (Inr \<lparr>content = [], room = 0, unlinked = False\<rparr>) 0 ex_big_config = Inr ex_big_fresh
   \<and> fst (append_all wire ex_big ex_big_fresh) = Inr ex_big_offsets
   \<and> fst (read_all wire ex_big_offsets (snd (append_all wire ex_big ex_big_fresh))) = Inr ex_big_read
   \<and> Value (last ex_big_read) = [97] \<and> Value (last ex_big) = [98]
   \<and> map Value ex_big_read \<noteq> map Value ex_big"
proof -
  let ?s1 = "snd (append_all wire ex_big ex_big_fresh)"
  obtain ps where ps: "stamped_payloads wire 0 ex_big = Some ps"
      and a: "append_all wire ex_big ex_big_fresh
           = (Inr (map (\<lambda>k. 0 + of_nat k) [0..<length ex_big]), ?s1)"
      and h: "seg_holds ?s1 ps" and b: "baseOffset ?s1 = 0"
    using ex_big_holds by blast
  have offs: "map (\<lambda>k. 0 + of_nat k) [0..<length ex_big] = ex_big_offsets"
    by (simp add: ex_big_offsets_def)
  have "fst (append_all wire ex_big ex_big_fresh)
      = fst (Inr (map (\<lambda>k. 0 + of_nat k) [0..<length ex_big]) :: error + 64 word list, ?s1)"
    using a by (rule arg_cong)
  then have fa: "fst (append_all wire ex_big ex_big_fresh) = Inr ex_big_offsets"
    by (simp only: fst_conv offs)
  have len: "length ps = length ex_big" using stamped_payloads_nth [OF ps] by simp
  let ?f = "\<lambda>k. (ex_big ! (k mod 2 ^ 32))\<lparr>Offset := of_nat (k mod 2 ^ 32)\<rparr>"
  have all: "\<forall>k \<in> set [0..<length ex_big].
      k < length ps \<and> Unmarshal wire (ps ! (k mod 2 ^ 32)) = Inr (?f k)"
  proof
    fix k assume "k \<in> set [0..<length ex_big]"
    then have k: "k < length ex_big" by simp
    then have j: "k mod 2 ^ 32 < length ex_big" by (meson le_less_trans mod_less_eq_dividend)
    show "k < length ps \<and> Unmarshal wire (ps ! (k mod 2 ^ 32)) = Inr (?f k)"
      using unmarshal_stamped [OF wire_ok ps j] k len by simp
  qed
  obtain s2 where r: "read_all wire (map (\<lambda>k. baseOffset ?s1 + of_nat k) [0..<length ex_big]) ?s1
      = (Inr (map ?f [0..<length ex_big]), s2)"
    using read_all_holds [OF h all] by blast
  have r': "fst (read_all wire ex_big_offsets ?s1) = Inr ex_big_read"
    using r by (simp add: b ex_big_offsets_def ex_big_read_def)
  have l1: "last ex_big_read = ?f 4294967296"
    by (simp add: ex_big_read_def length_ex_big last_map last_upt del: upt_Suc)
  have v1: "Value (last ex_big_read) = [97]"
    by (simp add: l1 ex_big_nth rec_of_def)
  have v2: "Value (last ex_big) = [98]" by (simp add: ex_big_nth rec_of_def)
  have ne1: "ex_big_read \<noteq> []" by (simp add: ex_big_read_def length_ex_big)
  have ne2: "ex_big \<noteq> []" by (simp add: ex_big_def)
  have "map Value ex_big_read \<noteq> map Value ex_big"
  proof
    assume "map Value ex_big_read = map Value ex_big"
    then have "last (map Value ex_big_read) = last (map Value ex_big)" by simp
    then show False using v1 v2 ne1 ne2 by (simp add: last_map)
  qed
  then show ?thesis using ex_big_fresh_new fa r' v1 v2 by simp
qed

text \<open>
  Claim C1, amended. Take a fresh segment (\<open>newSegment\<close> over two empty files) and
  \<open>N \<le> 2^32\<close> records that can be marshalled, with enough room on the device for their
  frames and an index large enough for \<open>N\<close> entries. Appending them in order succeeds and
  returns the offsets \<open>b, b + 1, ...\<close>; reading these offsets in order succeeds and returns
  records with the original payloads, each carrying the offset it was given.
\<close>

theorem segment_round_trip:
  assumes "newSegment (Inr \<lparr>content = [], room = R, unlinked = False\<rparr>)
             (Inr \<lparr>content = [], room = R', unlinked = False\<rparr>) b c = Inr s0"
    and "proto_ok pb"
    and "stamped_payloads pb b rs = Some ps"
    and "length (concat (map frame ps)) \<le> R" and "length (concat (map frame ps)) < 2 ^ 63"
    and "12 * length rs \<le> unat (MaxIndexBytes c)"
    and "length rs \<le> 2 ^ 32"
  shows "\<exists>offs s1 rs' s2.
           append_all pb rs s0 = (Inr offs, s1)
         \<and> offs = map (\<lambda>k. b + of_nat k) [0..<length rs]
         \<and> read_all pb offs s1 = (Inr rs', s2)
         \<and> map Value rs' = map Value rs
         \<and> map Offset rs' = offs"
proof -
  let ?offs = "map (\<lambda>k. b + of_nat k) [0..<length rs]"
  let ?f = "\<lambda>k. (rs ! k)\<lparr>Offset := b + of_nat k\<rparr>"
  obtain s1 where a: "append_all pb rs s0 = (Inr ?offs, s1)"
      and h: "seg_holds s1 ps" and b1: "baseOffset s1 = b"
    using appended_holds [OF assms(1,3,4,5,6)] by auto
  have len: "length ps = length rs" using stamped_payloads_nth [OF assms(3)] by simp
  have all: "\<forall>k \<in> set [0..<length rs].
      k < length ps \<and> Unmarshal pb (ps ! (k mod 2 ^ 32)) = Inr (?f k)"
    using unmarshal_stamped [OF assms(2,3)] len assms(7) by simp
  obtain s2 where r: "read_all pb (map (\<lambda>k. baseOffset s1 + of_nat k) [0..<length rs]) s1
      = (Inr (map ?f [0..<length rs]), s2)"
    using read_all_holds [OF h all] by auto
  have v: "map Value (map ?f [0..<length rs]) = map Value rs"
    by (rule nth_equalityI) simp_all
  have o: "map Offset (map ?f [0..<length rs]) = ?offs"
    by (simp add: comp_def)
  have r': "read_all pb ?offs s1 = (Inr (map ?f [0..<length rs]), s2)"
    using r by (simp only: b1)
  show ?thesis
  proof (intro exI conjI)
    show "append_all pb rs s0 = (Inr ?offs, s1)" by (rule a)
    show "?offs = map (\<lambda>k. b + of_nat k) [0..<length rs]" by (rule refl)
    show "read_all pb ?offs s1 = (Inr (map ?f [0..<length rs]), s2)" by (rule r')
    show "map Value (map ?f [0..<length rs]) = map Value rs" by (rule v)
    show "map Offset (map ?f [0..<length rs]) = ?offs" by (rule o)
  qed
qed

theorem segment_round_trip_witness:
  "\<exists>offs s1 rs' s2.
     append_all wire ex_records ex_fresh = (Inr offs, s1)
   \<and> offs = map (\<lambda>k. 0 + of_nat k) [0..<length ex_records]
   \<and> read_all wire offs s1 = (Inr rs', s2)
   \<and> map Value rs' = map Value ex_records
   \<and> map Offset rs' = offs"
proof -
  have 4: "length (concat (map frame ex_payloads)) \<le> 1000" by (simp add: ex_payloads_length)
  have 5: "length (concat (map frame ex_payloads)) < 2 ^ 63" by (simp add: ex_payloads_length)
  have 6: "12 * length ex_records \<le> unat (MaxIndexBytes ex_config)"
    by (simp add: ex_records_def ex_config_def)
  have 7: "length ex_records \<le> 2 ^ 32" by (simp add: ex_records_def)
  show ?thesis
    by (rule segment_round_trip [OF ex_fresh_new wire_ok ex_stamped 4 5 6 7])
qed

text \<open>
  Claim C9 does not hold for every segment. With \<open>2^32 + 1\<close> records (\<open>ex_big\<close>) the
  sentinel -1 resolves to entry \<open>uint32(2^32) = 0\<close>: \<open>Read(baseOffset - 1)\<close> returns the
  first record, with payload \<open>a\<close>, while the last record has payload \<open>b\<close>.
\<close>

theorem segment_Read_below_base_counterexample:
  "fst (append_all wire ex_big ex_big_fresh) = Inr ex_big_offsets
   \<and> fst (segment_Read wire (0 - 1) (snd (append_all wire ex_big ex_big_fresh)))
       = Inr \<lparr>Value = [97], Offset = 0\<rparr>
   \<and> last ex_big = \<lparr>Value = [98], Offset = 0\<rparr>"
proof -
  let ?s1 = "snd (append_all wire ex_big ex_big_fresh)"
  obtain ps where ps: "stamped_payloads wire 0 ex_big = Some ps"
      and a: "append_all wire ex_big ex_big_fresh
           = (Inr (map (\<lambda>k. 0 + of_nat k) [0..<length ex_big]), ?s1)"
      and h: "seg_holds ?s1 ps" and b: "baseOffset ?s1 = 0"
    using ex_big_holds by blast
  have offs: "map (\<lambda>k. 0 + of_nat k) [0..<length ex_big] = ex_big_offsets"
    by (simp add: ex_big_offsets_def)
  have "fst (append_all wire ex_big ex_big_fresh)
      = fst (Inr (map (\<lambda>k. 0 + of_nat k) [0..<length ex_big]) :: error + 64 word list, ?s1)"
    using a by (rule arg_cong)
  then have fa: "fst (append_all wire ex_big ex_big_fresh) = Inr ex_big_offsets"
    by (simp only: fst_conv offs)
  have len: "length ps = 4294967297" using stamped_payloads_nth [OF ps] by (simp add: length_ex_big)
  have ne: "ps \<noteq> []" using len by auto
  have m: "(length ps - 1) mod 2 ^ 32 = 0" by (simp add: len)
  have u: "Unmarshal wire (ps ! 0) = Inr ((ex_big ! 0)\<lparr>Offset := 0 + of_nat 0\<rparr>)"
    using unmarshal_stamped [OF wire_ok ps, of 0] by (simp add: length_ex_big)
  obtain s2 where "segment_Read wire (baseOffset ?s1 - 1) ?s1 = (Unmarshal wire (ps ! 0), s2)"
    using segment_Read_below_holds [OF h ne, of wire] m by auto
  then have "fst (segment_Read wire (0 - 1) ?s1) = Inr \<lparr>Value = [97], Offset = 0\<rparr>"
    using u by (simp add: b ex_big_nth rec_of_def)
  then show ?thesis using fa by (simp add: ex_big_nth rec_of_def)
qed

text \<open>
  Claim C9, amended. On a segment that holds between 1 and \<open>2^32\<close> records (built as in
  C1), \<open>Read\<close> of the offset \<open>baseOffset - 1\<close> does not fail: \<open>off - baseOffset\<close> wraps to
  \<open>2^64 - 1\<close>, which as an \<open>int64\<close> is the sentinel -1, and the call returns the last
  record of the segment.
\<close>

theorem segment_Read_below_base:
  assumes "newSegment (Inr \<lparr>content = [], room = R, unlinked = False\<rparr>)
             (Inr \<lparr>content = [], room = R', unlinked = False\<rparr>) b c = Inr s0"
    and "proto_ok pb"
    and "stamped_payloads pb b rs = Some ps"
    and "length (concat (map frame ps)) \<le> R" and "length (concat (map frame ps)) < 2 ^ 63"
    and "12 * length rs \<le> unat (MaxIndexBytes c)"
    and "length rs \<le> 2 ^ 32"
    and "rs \<noteq> []"
    and "append_all pb rs s0 = (res, s1)"
  shows "unat (b - 1 - baseOffset s1) = 2 ^ 64 - 1 \<and> sint (b - 1 - baseOffset s1) = - 1
       \<and> (\<exists>s2. segment_Read pb (b - 1) s1
              = (Inr ((last rs)\<lparr>Offset := b + of_nat (length rs - 1)\<rparr>), s2))"
proof -
  have h: "seg_holds s1 ps" and b1: "baseOffset s1 = b"
    using appended_holds [OF assms(1,3,4,5,6)] assms(9) by auto
  have len: "length ps = length rs" using stamped_payloads_nth [OF assms(3)] by simp
  have ne: "ps \<noteq> []" using len assms(8) by auto
  have k: "length rs - 1 < length rs" using assms(8) by (cases rs) simp_all
  have m: "(length ps - 1) mod 2 ^ 32 = length rs - 1" using assms(7) k len by simp
  have u: "Unmarshal pb (ps ! ((length ps - 1) mod 2 ^ 32))
      = Inr ((rs ! (length rs - 1))\<lparr>Offset := b + of_nat (length rs - 1)\<rparr>)"
    using unmarshal_stamped [OF assms(2,3) k] m by simp
  have lr: "rs ! (length rs - 1) = last rs" using assms(8) by (simp add: last_conv_nth)
  have w: "unat (- 1 :: 64 word) = 2 ^ 64 - 1"
    by (simp add: unsigned_minus_1_eq_mask mask_eq_exp_minus_1)
  show ?thesis
    using segment_Read_below_holds [OF h ne, of pb] u lr b1 w by simp
qed

theorem segment_Read_below_base_witness:
  "\<exists>s2. segment_Read wire (0 - 1) (snd (append_all wire ex_records ex_fresh))
      = (Inr \<lparr>Value = [99, 99, 99], Offset = 2\<rparr>, s2)"
proof -
  have 4: "length (concat (map frame ex_payloads)) \<le> 1000" by (simp add: ex_payloads_length)
  have 5: "length (concat (map frame ex_payloads)) < 2 ^ 63" by (simp add: ex_payloads_length)
  have 6: "12 * length ex_records \<le> unat (MaxIndexBytes ex_config)"
    by (simp add: ex_records_def ex_config_def)
  have 7: "length ex_records \<le> 2 ^ 32" by (simp add: ex_records_def)
  have 8: "ex_records \<noteq> []" by (simp add: ex_records_def)
  have 9: "append_all wire ex_records ex_fresh
      = (fst (append_all wire ex_records ex_fresh), snd (append_all wire ex_records ex_fresh))"
    by simp
  have l: "(last ex_records)\<lparr>Offset := 0 + of_nat (length ex_records - 1)\<rparr>
      = \<lparr>Value = [99, 99, 99], Offset = 2\<rparr>"
    by (simp add: ex_records_def rec_of_def)
  show ?thesis
    using segment_Read_below_base [OF ex_fresh_new wire_ok ex_stamped 4 5 6 7 8 9]
    unfolding l by blast
qed

lemma segment_Append_config: "config (snd (segment_Append pb r s)) = config s"
  by (simp add: segment_Append_def Let_def split: sum.splits prod.splits option.splits)

lemma append_all_config: "config (snd (append_all pb rs s)) = config s"
proof (induction rs arbitrary: s)
  case Nil
  then show ?case by simp
next
  case (Cons r rs)
  show ?case
    using segment_Append_config [of pb r s] Cons.IH [of "snd (segment_Append pb r s)"]
    by (auto split: sum.splits prod.splits)
qed

lemma ex_ten_stamped: "stamped_payloads wire 0 ex_ten = Some ex_ten_payloads"
  by (simp add: ex_ten_def ex_ten_payloads_def rec_of_def wire_def wire_Marshal_def Let_def
      varint.simps)

lemma ex_ten_payloads_length: "length (concat (map frame ex_ten_payloads)) = 128"
  by (simp add: ex_ten_payloads_def)

lemma ex_ten_full:
  "fst (segment_Append wire (rec_of [97]) (snd (append_all wire ex_ten ex_fresh))) = Inl EOF"
proof -
  have 4: "length (concat (map frame ex_ten_payloads)) \<le> 1000" by (simp add: ex_ten_payloads_length)
  have 5: "length (concat (map frame ex_ten_payloads)) < 2 ^ 63" by (simp add: ex_ten_payloads_length)
  have 6: "12 * length ex_ten \<le> unat (MaxIndexBytes ex_config)"
    by (simp add: ex_ten_def ex_config_def)
  let ?s = "snd (append_all wire ex_ten ex_fresh)"
  have h: "seg_holds ?s ex_ten_payloads" and sp: "spare (store ?s) = 1000 - 128"
      and m: "length (mmap (index ?s)) = 120"
    using appended_holds [OF ex_fresh_new ex_ten_stamped 4 5 6]
    by (auto simp: ex_ten_payloads_length ex_config_def)
  have b0: "baseOffset ?s = 0"
    using appended_holds [OF ex_fresh_new ex_ten_stamped 4 5 6] by auto
  have w: "werr (buf (store ?s)) = None"
      and r: "length (wbuf (buf (store ?s))) \<le> room (File (store ?s))"
      and sz: "unat (size_ix (index ?s)) = 120"
      and n: "nextOffset ?s = 10"
    using h b0 by (simp_all add: seg_holds_def ex_ten_payloads_def)
  have ix: "size_ix (index ?s) = 120" using sz by (metis of_nat_unat ucast_id of_nat_numeral)
  have ma: "Marshal wire ((rec_of [97])\<lparr>Offset := nextOffset ?s\<rparr>) = Inr [10, 1, 97, 16, 10]"
  proof -
    have "wire_Marshal ((rec_of [97])\<lparr>Offset := 10\<rparr>) = Inr [10, 1, 97, 16, 10]"
      by (simp add: wire_Marshal_def rec_of_def Let_def varint.simps)
    moreover have "Marshal wire = wire_Marshal" by (simp add: wire_def)
    ultimately show ?thesis by (simp only: n)
  qed
  have c: "8 + length [10, 1, 97, 16, 10 :: byte] \<le> spare (store ?s)" using sp by simp
  obtain st where st: "store_Append [10, 1, 97, 16, 10] (store ?s)
      = (Inr (8 + of_nat (length [10, 1, 97, 16, 10 :: byte]), size_st (store ?s)), st)"
    using store_Append_ok [OF w r c] by blast
  have full: "index_Write off pos (index ?s) = (Some EOF, index ?s)" for off pos
    by (simp add: index_Write_def ix m)
  show ?thesis
    using ma st full by (simp add: segment_Append_def Let_def)
qed

text \<open>
  Claim C2, evaluated on the scenario of the specification: \<open>MaxStoreBytes = 1024\<close>,
  \<open>MaxIndexBytes = 120\<close>, base offset 0, ten records appended to a fresh segment. The index
  then holds 120 bytes, which is \<open>MaxIndexBytes\<close>, and the next \<open>Append\<close> fails because the
  index is full; yet \<open>IsMaxed\<close> returns false, since it compares the size of the index with
  \<open>MaxStoreBytes\<close>.
\<close>

theorem segment_IsMaxed_misses_index_ceiling:
  "size_ix (index (snd (append_all wire ex_ten ex_fresh)))
      = MaxIndexBytes (config (snd (append_all wire ex_ten ex_fresh)))
   \<and> fst (segment_Append wire (rec_of [97]) (snd (append_all wire ex_ten ex_fresh))) = Inl EOF
   \<and> \<not> segment_IsMaxed (snd (append_all wire ex_ten ex_fresh))"
proof -
  have 4: "length (concat (map frame ex_ten_payloads)) \<le> 1000" by (simp add: ex_ten_payloads_length)
  have 5: "length (concat (map frame ex_ten_payloads)) < 2 ^ 63" by (simp add: ex_ten_payloads_length)
  have 6: "12 * length ex_ten \<le> unat (MaxIndexBytes ex_config)"
    by (simp add: ex_ten_def ex_config_def)
  let ?s = "snd (append_all wire ex_ten ex_fresh)"
  have h: "seg_holds ?s ex_ten_payloads"
    using appended_holds [OF ex_fresh_new ex_ten_stamped 4 5 6] by auto
  have c: "config ?s = ex_config" by (simp add: append_all_config ex_fresh_def)
  have "unat (size_ix (index ?s)) = 120"
    using h by (simp add: seg_holds_def ex_ten_payloads_def)
  then have ix: "size_ix (index ?s) = 120" by (metis of_nat_unat ucast_id of_nat_numeral)
  have st: "size_st (store ?s) = 128"
    using h by (simp add: seg_holds_def ex_ten_payloads_length)
  show ?thesis using ex_ten_full by (simp add: segment_IsMaxed_def c ix st ex_config_def)
qed

lemma newSegment_Inr:
  assumes "newSegment storeFile indexFile b c = Inr s"
  shows "baseOffset s = b \<and> config s = c
       \<and> (case index_Read (index s) (- 1) of
             Inl e \<Rightarrow> e \<noteq> Panic \<and> nextOffset s = b
           | Inr (off, pos) \<Rightarrow> nextOffset s = b + ucast off + 1)"
  using assms
  by (auto simp: newSegment_def split: sum.splits error.splits prod.splits)

lemma index_Read_minus1_short:
  assumes "unat (size_ix i) < 12"
  shows "index_Read i (- 1) = Inl EOF"
proof (cases "size_ix i = 0")
  case True
  then show ?thesis by (simp add: index_Read_def)
next
  case False
  have "unat (size_ix i div 12) = 0" using assms by (simp add: unat_div)
  then have "size_ix i div 12 = 0" by (simp add: unat_eq_0)
  then have "unat (ucast (size_ix i div 12 - 1) :: 32 word) = 2 ^ 32 - 1"
    by (simp add: unsigned_minus_1_eq_mask mask_eq_exp_minus_1)
  then show ?thesis using False assms by (simp add: index_Read_entry)
qed

lemma index_Read_minus1_entries:
  assumes "unat (size_ix i) = 12 * K" and "1 \<le> K" and "K \<le> 2 ^ 32"
  shows "index_Read i (- 1) = (case entry_at (mmap i) (K - 1) of None \<Rightarrow> Inl Panic | Some e \<Rightarrow> Inr e)"
proof -
  have k: "K - 1 < 2 ^ 32" using assms(2,3) by simp
  have "unat (ucast (size_ix i div 12 - 1) :: 32 word) = K - 1"
    using last_entry_number(1) [OF assms(1,2)] unat_of_nat_32_64 [OF k] by simp
  moreover have "12 * (K - 1) + 12 = 12 * K" using assms(2) by simp
  ultimately show ?thesis
    using last_entry_number(3) [OF assms(1,2)] assms(1) by (simp add: index_Read_entry)
qed

text \<open>
  Reopening after a clean \<open>Close\<close>, which leaves the index file with the first \<open>size\<close>
  bytes of the mapping: the last entry stores \<open>K - 1\<close>, and \<open>nextOffset\<close> is the base
  offset plus the number of entries.
\<close>

lemma newSegment_reopen:
  assumes "seg_holds s ps" and "ps \<noteq> []" and "length ps \<le> 2 ^ 32"
    and "content xf = take (12 * length ps) (mmap (index s))"
    and "\<not> unlinked xf" and "\<not> unlinked sf"
    and "12 * length ps \<le> unat (MaxIndexBytes c)" and "\<not> sint (MaxIndexBytes c) < 0"
  shows "\<exists>s'. newSegment (Inr sf) (Inr xf) b c = Inr s' \<and> nextOffset s' = b + of_nat (length ps)"
proof -
  let ?K = "length ps"
  let ?M = "unat (MaxIndexBytes c)"
  have K: "1 \<le> ?K" using assms(2) by (cases ps) simp_all
  have le: "12 * ?K \<le> length (mmap (index s))" and l63: "length (mmap (index s)) < 2 ^ 63"
    and en: "entry_at (mmap (index s)) (?K - 1)
        = Some (of_nat (?K - 1), of_nat (length (concat (map frame (take (?K - 1) ps)))))"
    using assms(1) K by (simp_all add: seg_holds_def)
  have lc: "length (content xf) = 12 * ?K" using assms(4) le by simp
  let ?m = "take (12 * ?K) (mmap (index s)) @ replicate (?M - 12 * ?K) 0"
  have tr: "take ?M (content xf @ replicate (?M - length (content xf)) 0) = ?m"
    using assms(4,7) lc by simp
  let ?f = "xf\<lparr>content := ?m\<rparr>"
  let ?ix = "\<lparr>file_ix = ?f, mmap = ?m, size_ix = of_nat (12 * ?K)\<rparr>"
  have ne: "?m \<noteq> []" using K le by auto
  have ni: "newIndex xf c = Inr ?ix"
    using assms(5,8) tr ne lc
    by (simp add: newIndex_def os_Stat_def os_Truncate_def gommap_Map_def)
  have b64: "12 * ?K < 2 ^ 64" using le l63 by simp
  have sz: "unat (size_ix ?ix) = 12 * ?K"
    using unat_of_nat64 [OF b64] by (simp del: of_nat_mult)
  have e': "entry_at (mmap ?ix) (?K - 1)
        = Some (of_nat (?K - 1), of_nat (length (concat (map frame (take (?K - 1) ps)))))"
    using entry_at_kept [of "?K - 1" "12 * ?K" "mmap (index s)"] K le en by simp
  have rd: "index_Read ?ix (- 1)
      = Inr (of_nat (?K - 1), of_nat (length (concat (map frame (take (?K - 1) ps)))))"
    using index_Read_minus1_entries [OF sz K assms(3)] e' by simp
  have uc: "(ucast (of_nat (?K - 1) :: 32 word) :: 64 word) = of_nat (?K - 1)"
  proof -
    have k: "?K - 1 < 2 ^ 32" using K assms(3) by arith
    have "unat (ucast (of_nat (?K - 1) :: 32 word) :: 64 word) = ?K - 1"
      using k by (simp add: unsigned_ucast_eq unat_of_nat take_bit_nat_eq_self)
    moreover have "unat (of_nat (?K - 1) :: 64 word) = ?K - 1"
      using k by (simp add: unat_of_nat64)
    ultimately show ?thesis by (metis word_unat_eq_iff)
  qed
  have p1: "(of_nat (?K - 1) :: 64 word) + 1 = of_nat ?K" using K by simp
  have "b + ucast (of_nat (?K - 1) :: 32 word) + 1 = b + ((of_nat (?K - 1) :: 64 word) + 1)"
    by (simp only: uc add.assoc)
  then have n: "b + ucast (of_nat (?K - 1) :: 32 word) + 1 = b + of_nat ?K"
    by (simp only: p1)
  show ?thesis
    using ni rd assms(6) n
    by (simp add: newSegment_def newStore_def os_Stat_def)
qed

lemma zeros12: "replicate 12 (0::byte) = [0, 0, 0, 0, 0, 0, 0, 0, 0, 0, 0, 0]"
  by (simp add: eval_nat_numeral)

lemma ex_fresh36_new:
  "newSegment (Inr (empty_file 1024)) (Inr (empty_file 0)) 0 ex_config36 = Inr ex_fresh36"
  by (simp add: newSegment_def newStore_def newIndex_def os_Stat_def os_Truncate_def
      gommap_Map_def index_Read_def ex_config36_def ex_fresh36_def empty_file_def)

lemmas eval_defs = segment_Append_def store_Append_def binary_Write_def Writer_Write_def
  Writer_Write_loop_stop Available_def defaultBufSize_def index_Write_def put_slice_def
  wire_def wire_Marshal_def varint.simps rec_of_def Let_def

lemma ex_crash_provenance:
  "fst (append_all wire [rec_of [97], rec_of [97]] ex_fresh36) = Inr [0, 1]
   \<and> mmap (index (snd (append_all wire [rec_of [97], rec_of [97]] ex_fresh36)))
       = content ex_crash_index_file
   \<and> logical (store (snd (append_all wire [rec_of [97], rec_of [97]] ex_fresh36)))
       = content ex_store_file"
  apply (simp add: ex_fresh36_def empty_file_def eval_defs ex_crash_index_file_def ex_store_file_def
      logical_def frame_def)
  apply (simp add: PutUint32_def PutUint64_def eval_nat_numeral)
  done

text \<open>
  Claim C3 does not hold for every existing index file. When the process ends without
  \<open>Close\<close>, the index file keeps the length it was given at open time (\<open>MaxIndexBytes\<close>),
  the unused part being zero. Here two records were appended under \<open>MaxIndexBytes = 36\<close>
  (\<open>ex_crash_provenance\<close>): on reopening, \<open>size\<close> is 36, three entries by count, the last
  of them is zero, and \<open>nextOffset\<close> becomes \<open>0 + 0 + 1\<close>, not \<open>0 + 3\<close>.
\<close>

theorem newSegment_nextOffset_counterexample:
  "newSegment (Inr ex_store_file) (Inr ex_crash_index_file) 0 ex_config36 = Inr ex_reopened
   \<and> size_ix (index ex_reopened) div 12 = 3
   \<and> nextOffset ex_reopened = 1
   \<and> nextOffset ex_reopened \<noteq> baseOffset ex_reopened + size_ix (index ex_reopened) div 12"
proof -
  let ?m = "PutUint32 0 @ PutUint64 0 @ PutUint32 1 @ PutUint64 11 @ [0, 0, 0, 0, 0, 0, 0, 0, 0, 0, 0, 0]"
  have e: "entry_at ?m 2 = Some (0, 0)"
    by (simp add: entry_at_def slice_def PutUint32_def PutUint64_def)
  have r: "index_Read \<lparr>file_ix = ex_crash_index_file, mmap = ?m, size_ix = 36\<rparr> (- 1) = Inr (0, 0)"
    using e by (simp add: index_Read_entry)
  have "newSegment (Inr ex_store_file) (Inr ex_crash_index_file) 0 ex_config36 = Inr ex_reopened"
    using r
    by (simp add: newSegment_def newStore_def newIndex_def os_Stat_def os_Truncate_def
      gommap_Map_def ex_config36_def ex_reopened_def ex_store_file_def ex_crash_index_file_def)
  then show ?thesis by (simp add: ex_reopened_def)
qed

text \<open>
  Claim C3, amended. After \<open>newSegment\<close> succeeds, \<open>baseOffset\<close> is the given base offset.
  If the index holds no complete entry (in particular if it is empty, as for a freshly
  created segment), \<open>nextOffset = baseOffset\<close>. If it holds \<open>K\<close> entries
  (\<open>1 \<le> K \<le> 2^32\<close>), \<open>nextOffset\<close> is \<open>baseOffset\<close> plus the relative offset stored in
  the last entry plus 1; that is \<open>baseOffset + K\<close> when the last entry stores \<open>K - 1\<close>,
  as it does in an index written by \<open>Append\<close> and closed (\<open>newSegment_reopen\<close>).
\<close>

theorem newSegment_nextOffset:
  assumes "newSegment storeFile indexFile b c = Inr s"
  shows "baseOffset s = b
       \<and> (unat (size_ix (index s)) < 12 \<longrightarrow> nextOffset s = b)
       \<and> (\<forall>K. unat (size_ix (index s)) = 12 * K \<and> 1 \<le> K \<and> K \<le> 2 ^ 32 \<longrightarrow>
             (\<exists>off pos. entry_at (mmap (index s)) (K - 1) = Some (off, pos)
                \<and> nextOffset s = b + ucast off + 1
                \<and> (off = of_nat (K - 1) \<longrightarrow> nextOffset s = b + of_nat K)))"
proof (intro conjI allI impI)
  note N = newSegment_Inr [OF assms]
  show "baseOffset s = b" using N by simp
  show "nextOffset s = b" if "unat (size_ix (index s)) < 12"
    using N index_Read_minus1_short [OF that] by simp
  fix K assume K: "unat (size_ix (index s)) = 12 * K \<and> 1 \<le> K \<and> K \<le> 2 ^ 32"
  then have rd: "index_Read (index s) (- 1)
      = (case entry_at (mmap (index s)) (K - 1) of None \<Rightarrow> Inl Panic | Some e \<Rightarrow> Inr e)"
    using index_Read_minus1_entries by simp
  obtain off pos where e: "entry_at (mmap (index s)) (K - 1) = Some (off, pos)"
    using N rd by (cases "entry_at (mmap (index s)) (K - 1)") auto
  have n: "nextOffset s = b + ucast off + 1" using N rd e by simp
  have "nextOffset s = b + of_nat K" if "off = of_nat (K - 1)"
  proof -
    have "(ucast (of_nat (K - 1) :: 32 word) :: 64 word) = of_nat (K - 1)"
    proof -
      have k: "K - 1 < 2 ^ 32" using K by arith
      have "unat (ucast (of_nat (K - 1) :: 32 word) :: 64 word) = K - 1"
        using k by (simp add: unsigned_ucast_eq unat_of_nat take_bit_nat_eq_self)
      moreover have "unat (of_nat (K - 1) :: 64 word) = K - 1"
        using k by (simp add: unat_of_nat64)
      ultimately show ?thesis by (metis word_unat_eq_iff)
    qed
    then show ?thesis using n that K by simp
  qed
  then show "\<exists>off pos. entry_at (mmap (index s)) (K - 1) = Some (off, pos)
                \<and> nextOffset s = b + ucast off + 1
                \<and> (off = of_nat (K - 1) \<longrightarrow> nextOffset s = b + of_nat K)"
    using e n by blast
qed

theorem newSegment_nextOffset_witness:
  "newSegment (Inr ex_store_file) (Inr ex_clean_index_file) 0 ex_config36 = Inr ex_reopened_clean
   \<and> size_ix (index ex_reopened_clean) = 24
   \<and> nextOffset ex_reopened_clean = 0 + of_nat 2"
proof -
  let ?m = "PutUint32 0 @ PutUint64 0 @ PutUint32 1 @ PutUint64 11 @ [0, 0, 0, 0, 0, 0, 0, 0, 0, 0, 0, 0]"
  have e: "entry_at ?m 1 = Some (1, 11)"
    using Uint32_PutUint32 [of 1 "[]"] Uint64_PutUint64 [of 11 "[]"]
    by (simp add: entry_at_def slice_def)
  have r: "index_Read \<lparr>file_ix = ex_crash_index_file, mmap = ?m, size_ix = 24\<rparr> (- 1) = Inr (1, 11)"
    using e by (simp add: index_Read_entry)
  have n: "newSegment (Inr ex_store_file) (Inr ex_clean_index_file) 0 ex_config36 = Inr ex_reopened_clean"
    using r
    by (simp add: newSegment_def newStore_def newIndex_def os_Stat_def os_Truncate_def
      gommap_Map_def ex_config36_def ex_reopened_clean_def ex_store_file_def
      ex_crash_index_file_def ex_clean_index_file_def zeros12)
  have sz: "unat (size_ix (index ex_reopened_clean)) = 12 * 2 \<and> 1 \<le> (2::nat) \<and> (2::nat) \<le> 2 ^ 32"
    by (simp add: ex_reopened_clean_def)
  have e': "entry_at (mmap (index ex_reopened_clean)) (2 - 1) = Some (1, 11)"
    using e by (simp add: ex_reopened_clean_def ex_crash_index_file_def)
  have "nextOffset ex_reopened_clean = 0 + of_nat 2"
    using newSegment_nextOffset [OF n] sz e' by auto
  then show ?thesis using n by (simp add: ex_reopened_clean_def)
qed

end
